theory Spec2Isabelle
  imports Main
begin

section \<open>Python values, errors and observable events\<close>

text \<open>
  The two executors of \<^verbatim>\<open>mprocess.py\<close> are dynamically typed: what a caller hands to
  \<^verbatim>\<open>add_command\<close>, \<^verbatim>\<open>FunctionCall\<close> or \<^verbatim>\<open>run_processes\<close> is an arbitrary Python
  object, and the code inspects its type at run time. The objects that those checks
  tell apart are the constructors of \<open>pyval\<close>. A callable is identified by a number.
\<close>

datatype pyval =
    PNone
  | PBool bool
  | PInt int
  | PStr string
  | PList "pyval list"
  | PTuple "pyval list"
  | PCallable nat

text \<open>The classes that the source passes to \<^verbatim>\<open>isinstance\<close> and \<^verbatim>\<open>check_types\<close>.\<close>

datatype pytype = TInt | TBool | TStr | TList | TTuple

text \<open>Python's \<^verbatim>\<open>isinstance\<close>; \<^verbatim>\<open>bool\<close> is a subclass of \<^verbatim>\<open>int\<close>.\<close>

fun isinstance :: "pyval \<Rightarrow> pytype \<Rightarrow> bool" where
  "isinstance (PBool _) TInt = True"
| "isinstance (PInt _) TInt = True"
| "isinstance (PBool _) TBool = True"
| "isinstance (PStr _) TStr = True"
| "isinstance (PList _) TList = True"
| "isinstance (PTuple _) TTuple = True"
| "isinstance _ _ = False"

text \<open>Python's built-in \<^verbatim>\<open>callable\<close>.\<close>

fun callable :: "pyval \<Rightarrow> bool" where
  "callable (PCallable _) = True"
| "callable _ = False"

text \<open>
  The exceptions that leave the functions of the module. \<open>AssertionError\<close> is what a
  failed \<^verbatim>\<open>assert\<close> raises, \<open>RuntimeError\<close> is raised explicitly by both
  \<^verbatim>\<open>run_processes\<close>, \<open>AttributeError\<close> is what an attribute access on \<^verbatim>\<open>None\<close>
  raises, \<open>OSError\<close> is what \<^verbatim>\<open>subprocess.Popen\<close> raises when the program cannot be
  started, and \<open>ValidationError\<close> is the failure of \<^verbatim>\<open>utils.check_types\<close>. The
  message texts are left out. Assertions are taken to be enabled (the interpreter does not
  run with \<^verbatim>\<open>-O\<close>).
\<close>

datatype error =
    AssertionError
  | ValidationError
  | RuntimeError
  | AttributeError
  | OSError

text \<open>The errors that report a malformed argument or submission.\<close>

fun is_validation_error :: "error \<Rightarrow> bool" where
  "is_validation_error AssertionError = True"
| "is_validation_error ValidationError = True"
| "is_validation_error _ = False"

text \<open>
  Modelled from the spec: \<^verbatim>\<open>utils.check_types\<close> of the \<^verbatim>\<open>schammer\<close> package is not part
  of the sources. It receives triples (name, value, class) and, following the spec, fails
  with a validation error as soon as one value is not an instance of its class.
\<close>

fun check_types :: "(string \<times> pyval \<times> pytype) list \<Rightarrow> error + unit" where
  "check_types [] = Inr ()"
| "check_types ((name, v, ty) # rest) =
     (if isinstance v ty then check_types rest else Inl ValidationError)"

text \<open>The integer that Python computes with when an \<^verbatim>\<open>int\<close> instance is compared.\<close>

fun int_of :: "pyval \<Rightarrow> int" where
  "int_of (PInt n) = n"
| "int_of (PBool b) = (if b then 1 else 0)"
| "int_of _ = 0"

text \<open>Truth value of an object in a condition (\<^verbatim>\<open>if output:\<close>, \<^verbatim>\<open>not shell\<close>).\<close>

fun truthy :: "pyval \<Rightarrow> bool" where
  "truthy PNone = False"
| "truthy (PBool b) = b"
| "truthy (PInt n) = (n \<noteq> 0)"
| "truthy (PStr s) = (s \<noteq> [])"
| "truthy (PList xs) = (xs \<noteq> [])"
| "truthy (PTuple xs) = (xs \<noteq> [])"
| "truthy (PCallable _) = True"

text \<open>
  \<^verbatim>\<open>str.strip()\<close>: leading and trailing whitespace is removed. Among the characters that
  \<open>char\<close> holds, Python counts as whitespace the codes 9 to 13, 28 to 32, 133 and 160.
\<close>

definition isspace :: "char \<Rightarrow> bool" where
  "isspace c = (of_char c \<in> {9, 10, 11, 12, 13, 28, 29, 30, 31, 32, 133, 160 :: nat})"

definition strip :: "string \<Rightarrow> string" where
  "strip s = rev (dropWhile isspace (rev (dropWhile isspace s)))"

text \<open>\<^verbatim>\<open>sep.join(parts)\<close>.\<close>

fun join :: "string \<Rightarrow> string list \<Rightarrow> string" where
  "join sep [] = []"
| "join sep [s] = s"
| "join sep (s # t # rest) = s @ sep @ join sep (t # rest)"

text \<open>
  What a run does to the outside world, in the order in which it happens: the worker pool
  being created and closed, a call being dispatched and its result being collected, a
  line handed to \<^verbatim>\<open>logging.info\<close>, a subprocess being started and a bounded
  \<^verbatim>\<open>communicate\<close> on it. A subprocess is named by the position of its command in the
  queue and by the retry counter of its tracker at the time.
\<close>

record function_call =
  func :: nat
  arg_tuple :: "pyval list"

datatype event =
    PoolCreate int
  | ApplyAsync nat function_call
  | ResultGet nat
  | PoolClose
  | LoggingInfo string
  | Popen nat nat pyval bool bool
  | Communicate nat nat bool

text \<open>
  How an invocation of \<^verbatim>\<open>run_processes\<close> ends: it returns, it raises, or it is still
  running (a result that never arrives, or a polling loop that has not finished within
  the number of rounds that was observed).
\<close>

datatype outcome = Returned | Raised error | Unfinished

section \<open>The isolated call pool\<close>

text \<open>\<^verbatim>\<open>MultiprocessingPool.FunctionCall.__init__\<close>: two assertions, then the fields are stored.\<close>

definition FunctionCall_init :: "pyval \<Rightarrow> pyval \<Rightarrow> error + function_call" where
  "FunctionCall_init f a =
     (if \<not> callable f then Inl AssertionError
      else if \<not> isinstance a TTuple then Inl AssertionError
      else (case (f, a) of
              (PCallable c, PTuple xs) \<Rightarrow> Inr \<lparr>func = c, arg_tuple = xs\<rparr>
            | _ \<Rightarrow> Inl AssertionError))"

text \<open>
  An argument of \<^verbatim>\<open>add_function_call\<close> is any object: a plain value or an instance of
  \<^verbatim>\<open>FunctionCall\<close>.
\<close>

datatype pyobj = Plain pyval | FunctionCallObj function_call

record multiprocessing_pool =
  function_call_list :: "function_call list"

definition MultiprocessingPool_init :: multiprocessing_pool where
  "MultiprocessingPool_init = \<lparr>function_call_list = []\<rparr>"

definition add_function_call :: "multiprocessing_pool \<Rightarrow> pyobj \<Rightarrow> error + multiprocessing_pool" where
  "add_function_call self function_call =
     (case function_call of
        FunctionCallObj fc \<Rightarrow>
          Inr (self\<lparr>function_call_list := function_call_list self @ [fc]\<rparr>)
      | Plain _ \<Rightarrow> Inl AssertionError)"

text \<open>
  What a callable does when a worker invokes it is not determined by the module. It is a
  parameter: the callable writes some text to the logging stream and then returns, or
  raises; or it never hands control back (it does not terminate, or it ends the worker
  process). An exception carries the text that logging it produces, and is either an
  instance of \<^verbatim>\<open>Exception\<close> or one of the interpreter's exit signals
  (\<^verbatim>\<open>SystemExit\<close>, \<^verbatim>\<open>KeyboardInterrupt\<close>, \<^verbatim>\<open>GeneratorExit\<close>), which derive from
  \<^verbatim>\<open>BaseException\<close> only.
\<close>

datatype pyexc = ExceptionInst string | ExitSignal string

datatype call_behaviour =
    Returns string
  | Raises string pyexc
  | NoReturn

text \<open>
  Modelled from the spec: \<^verbatim>\<open>utils.setup_string_stream_logging\<close> and
  \<^verbatim>\<open>utils.log_last_error\<close> of the \<^verbatim>\<open>schammer\<close> package are not part of the sources.
  Following the spec, the first redirects the worker's logging output into the given
  in-memory buffer for the duration of the call, and the second logs the error that was
  just caught, so that its text is appended to the buffer.
\<close>

definition log_last_error :: "string \<Rightarrow> pyexc \<Rightarrow> string" where
  "log_last_error log_stream e =
     (case e of ExceptionInst txt \<Rightarrow> log_stream @ txt | ExitSignal txt \<Rightarrow> log_stream @ txt)"

text \<open>
  \<^verbatim>\<open>_call_func_and_return_log_and_error_caught\<close>. The handler is \<^verbatim>\<open>except Exception\<close>:
  an exit signal is not caught and leaves the function.
\<close>

datatype worker_result =
    WorkerReturn string bool
  | WorkerPropagates pyexc
  | WorkerNoReturn

definition call_func_and_return_log_and_error_caught ::
    "(function_call \<Rightarrow> call_behaviour) \<Rightarrow> function_call \<Rightarrow> worker_result" where
  "call_func_and_return_log_and_error_caught behaviour function_call =
     (case behaviour function_call of
        Returns log_stream \<Rightarrow> WorkerReturn (strip log_stream) False
      | Raises log_stream (ExceptionInst txt) \<Rightarrow>
          WorkerReturn (strip (log_last_error log_stream (ExceptionInst txt))) True
      | Raises log_stream (ExitSignal txt) \<Rightarrow> WorkerPropagates (ExitSignal txt)
      | NoReturn \<Rightarrow> WorkerNoReturn)"

text \<open>
  \<^verbatim>\<open>result.get()\<close> blocks until the worker has delivered the value of the dispatched
  function. A worker that is ended by an exit signal, or that never finishes, delivers
  nothing, and the \<^verbatim>\<open>get\<close> does not return.
\<close>

fun result_get :: "worker_result \<Rightarrow> (string \<times> bool) option" where
  "result_get (WorkerReturn log_str error_caught) = Some (log_str, error_caught)"
| "result_get (WorkerPropagates _) = None"
| "result_get WorkerNoReturn = None"

text \<open>
  The list comprehension \<^verbatim>\<open>[result.get() for result in result_list]\<close>: the results are
  awaited one after the other in dispatch order, starting with the result of index \<open>i\<close>.
  When a \<^verbatim>\<open>get\<close> does not return, the comprehension never completes.
\<close>

fun get_results :: "nat \<Rightarrow> worker_result list \<Rightarrow> (string \<times> bool) list option \<times> event list" where
  "get_results i [] = (Some [], [])"
| "get_results i (r # rs) =
     (case result_get r of
        None \<Rightarrow> (None, [ResultGet i])
      | Some v \<Rightarrow>
          (case get_results (Suc i) rs of
             (None, tr) \<Rightarrow> (None, ResultGet i # tr)
           | (Some vs, tr) \<Rightarrow> (Some (v # vs), ResultGet i # tr)))"

text \<open>
  The loop \<^verbatim>\<open>for log_str, error_caught in log_str_list\<close>: a non-empty log is handed to
  \<^verbatim>\<open>logging.info\<close>, and the \<^verbatim>\<open>raise\<close> inside the loop body ends the loop.
\<close>

definition call_completed_message :: "string \<Rightarrow> string" where
  "call_completed_message log_str =
     '' - multiprocessing function call completed - '' @ [CHR 0x0A] @ log_str"

fun log_the_logs :: "(string \<times> bool) list \<Rightarrow> (error + unit) \<times> event list" where
  "log_the_logs [] = (Inr (), [])"
| "log_the_logs ((log_str, error_caught) # rest) =
     (let logged = (if log_str \<noteq> [] then [LoggingInfo (call_completed_message log_str)] else [])
      in if error_caught then (Inl RuntimeError, logged)
         else (case log_the_logs rest of (r, tr) \<Rightarrow> (r, logged @ tr)))"

text \<open>
  \<^verbatim>\<open>MultiprocessingPool.run_processes\<close>. The behaviour of the \<open>i\<close>-th dispatched call is
  \<open>behaviour i\<close>. The result is the way the invocation ends, the executor afterwards and
  the events in order.
\<close>

definition dispatch :: "function_call list \<Rightarrow> event list" where
  "dispatch calls = map (\<lambda>(i, function_call). ApplyAsync i function_call) (enumerate 0 calls)"

definition workers ::
    "(nat \<Rightarrow> function_call \<Rightarrow> call_behaviour) \<Rightarrow> function_call list \<Rightarrow> worker_result list" where
  "workers behaviour calls =
     map (\<lambda>(i, function_call). call_func_and_return_log_and_error_caught (behaviour i) function_call)
       (enumerate 0 calls)"

definition mp_run_processes ::
    "(nat \<Rightarrow> function_call \<Rightarrow> call_behaviour) \<Rightarrow> multiprocessing_pool \<Rightarrow> pyval
      \<Rightarrow> outcome \<times> multiprocessing_pool \<times> event list" where
  "mp_run_processes behaviour self processes =
     (if \<not> isinstance processes TInt then (Raised AssertionError, self, [])
      else if \<not> (0 < int_of processes \<and> int_of processes < 37) then (Raised AssertionError, self, [])
      else
        (let started = PoolCreate (int_of processes) # dispatch (function_call_list self)
         in case get_results 0 (workers behaviour (function_call_list self)) of
              (None, gets) \<Rightarrow> (Unfinished, self, started @ gets)
            | (Some log_str_list, gets) \<Rightarrow>
                (case log_the_logs log_str_list of
                   (Inl e, logs) \<Rightarrow> (Raised e, self, started @ gets @ logs)
                 | (Inr _, logs) \<Rightarrow> (Returned, self, started @ gets @ logs @ [PoolClose]))))"

section \<open>The command queue and scheduler\<close>

text \<open>
  The queue holds the commands that passed the checks of \<^verbatim>\<open>add_command\<close>: lists of
  strings. (The assertion \<^verbatim>\<open>self.cmd_list is not None\<close> of \<^verbatim>\<open>run_processes\<close> always
  holds for a queue of this type.)
\<close>

record subprocess_pool =
  cmd_list :: "string list list"

definition SubprocessPool_init :: subprocess_pool where
  "SubprocessPool_init = \<lparr>cmd_list = []\<rparr>"

fun list_items :: "pyval \<Rightarrow> pyval list" where
  "list_items (PList xs) = xs"
| "list_items _ = []"

fun str_of :: "pyval \<Rightarrow> string" where
  "str_of (PStr s) = s"
| "str_of _ = []"

definition add_command :: "subprocess_pool \<Rightarrow> pyval \<Rightarrow> error + subprocess_pool" where
  "add_command self cmd =
     (case check_types [(''cmd'', cmd, TList)] of
        Inl e \<Rightarrow> Inl e
      | Inr _ \<Rightarrow>
          (case check_types (map (\<lambda>cs. (''cmd str'', cs, TStr)) (list_items cmd)) of
             Inl e \<Rightarrow> Inl e
           | Inr _ \<Rightarrow>
               if \<not> length (list_items cmd) > 0 then Inl AssertionError
               else Inr (self\<lparr>cmd_list := cmd_list self @ [map str_of (list_items cmd)]\<rparr>)))"

text \<open>
  The loop of \<^verbatim>\<open>add_list_of_commands\<close>. An exception of \<^verbatim>\<open>add_command\<close> leaves the loop;
  the executor is then in the state that the earlier iterations produced, which is returned
  next to the error.
\<close>

fun add_commands_loop :: "subprocess_pool \<Rightarrow> pyval list \<Rightarrow> (error + unit) \<times> subprocess_pool" where
  "add_commands_loop self [] = (Inr (), self)"
| "add_commands_loop self (cmd # rest) =
     (case add_command self cmd of
        Inl e \<Rightarrow> (Inl e, self)
      | Inr self' \<Rightarrow> add_commands_loop self' rest)"

definition add_list_of_commands :: "subprocess_pool \<Rightarrow> pyval \<Rightarrow> (error + unit) \<times> subprocess_pool" where
  "add_list_of_commands self cmds =
     (case check_types [(''cmd_list'', cmds, TList)] of
        Inl e \<Rightarrow> (Inl e, self)
      | Inr _ \<Rightarrow> add_commands_loop self (list_items cmds))"

text \<open>
  What a started subprocess does is a parameter as well: \<^verbatim>\<open>Popen\<close> fails to start the
  program; or the process exits with a return code after a number of bounded
  \<^verbatim>\<open>communicate\<close> calls have timed out, its merged output being bytes that decode to the
  given text (\<open>None\<close> when they are not valid UTF-8); or it never exits.
\<close>

datatype proc_behaviour =
    SpawnFails
  | Exits nat int "string option"
  | Hangs

text \<open>
  The \<^verbatim>\<open>Popen\<close> object of a tracker: how many \<^verbatim>\<open>communicate\<close> calls on it have timed
  out, and its \<^verbatim>\<open>returncode\<close> attribute, which is \<^verbatim>\<open>None\<close> until the process has been
  seen to exit.
\<close>

record popen_obj =
  timeouts :: nat
  returncode :: "int option"

text \<open>
  \<^verbatim>\<open>stdout_data\<close> as \<^verbatim>\<open>communicate\<close> returns it: \<^verbatim>\<open>None\<close> when the output is not piped,
  else a bytes object.
\<close>

datatype stdout_data = NoData | Bytes "string option"

text \<open>
  \<^verbatim>\<open>CMDTracker\<close>, with the position of the command in the queue as the identity of the
  tracker object.
\<close>

record cmd_tracker =
  tid :: nat
  cmd :: "string list"
  retries :: nat
  popen :: "popen_obj option"
  stdout_bytes :: "stdout_data option"

definition CMDTracker :: "nat \<Rightarrow> string list \<Rightarrow> cmd_tracker" where
  "CMDTracker i c = \<lparr>tid = i, cmd = c, retries = 0, popen = None, stdout_bytes = None\<rparr>"

text \<open>
  The inner loop that starts processes while a slot is free and a command is pending.
  \<^verbatim>\<open>pop()\<close> takes the last element of the pending list.
\<close>

definition popen_args :: "bool \<Rightarrow> string list \<Rightarrow> pyval" where
  "popen_args shell c = (if \<not> shell then PList (map PStr c) else PStr (join '' '' c))"

function start_processes ::
    "(nat \<Rightarrow> nat \<Rightarrow> proc_behaviour) \<Rightarrow> int \<Rightarrow> bool \<Rightarrow> bool \<Rightarrow> cmd_tracker list \<Rightarrow> cmd_tracker list
      \<Rightarrow> (error + cmd_tracker list \<times> cmd_tracker list) \<times> event list" where
  "start_processes env processes shell output to_run running =
     (if int (length running) < processes \<and> length to_run > 0 then
        (let cmd_tracker = last to_run;
             started = Popen (tid cmd_tracker) (retries cmd_tracker)
                         (popen_args shell (cmd cmd_tracker)) shell output
         in case env (tid cmd_tracker) (retries cmd_tracker) of
              SpawnFails \<Rightarrow> (Inl OSError, [started])
            | _ \<Rightarrow>
                (case start_processes env processes shell output (butlast to_run)
                        (running @ [cmd_tracker\<lparr>popen := Some \<lparr>timeouts = 0, returncode = None\<rparr>\<rparr>]) of
                   (r, tr) \<Rightarrow> (r, started # tr)))
      else (Inr (to_run, running), []))"
  by pat_completeness auto
termination
  by (relation "measure (\<lambda>(env, processes, shell, output, to_run, running). length to_run)") auto

text \<open>
  The loop that polls every running tracker once with \<^verbatim>\<open>communicate(timeout=1)\<close>. The
  result is the pair of the trackers that are still running and of those that completed,
  both in polling order.
\<close>

fun poll_running ::
    "(nat \<Rightarrow> nat \<Rightarrow> proc_behaviour) \<Rightarrow> bool \<Rightarrow> cmd_tracker list
      \<Rightarrow> (error + cmd_tracker list \<times> cmd_tracker list) \<times> event list" where
  "poll_running env output [] = (Inr ([], []), [])"
| "poll_running env output (cmd_tracker # rest) =
     (case popen cmd_tracker of
        None \<Rightarrow> (Inl AttributeError, [])
      | Some p \<Rightarrow>
          (let finished =
                 (case env (tid cmd_tracker) (retries cmd_tracker) of
                    Exits delay rc out \<Rightarrow>
                      if delay \<le> timeouts p then Some (rc, out) else None
                  | _ \<Rightarrow> None)
           in case finished of
                Some (rc, out) \<Rightarrow>
                  (let done = cmd_tracker
                         \<lparr>popen := Some (p\<lparr>returncode := Some rc\<rparr>),
                          stdout_bytes := Some (if output then Bytes out else NoData)\<rparr>
                   in case poll_running env output rest of
                        (Inl e, tr) \<Rightarrow>
                          (Inl e, Communicate (tid cmd_tracker) (retries cmd_tracker) True # tr)
                      | (Inr (still_running, completed), tr) \<Rightarrow>
                          (Inr (still_running, done # completed),
                           Communicate (tid cmd_tracker) (retries cmd_tracker) True # tr))
              | None \<Rightarrow>
                  (let waiting = cmd_tracker\<lparr>popen := Some (p\<lparr>timeouts := Suc (timeouts p)\<rparr>)\<rparr>
                   in case poll_running env output rest of
                        (Inl e, tr) \<Rightarrow>
                          (Inl e, Communicate (tid cmd_tracker) (retries cmd_tracker) False # tr)
                      | (Inr (still_running, completed), tr) \<Rightarrow>
                          (Inr (waiting # still_running, completed),
                           Communicate (tid cmd_tracker) (retries cmd_tracker) False # tr))))"

text \<open>
  \<^verbatim>\<open>get_std_out_from_tracker\<close>: the captured bytes are decoded and stripped, an
  undecodable output counts as the empty text, and the attribute access on \<^verbatim>\<open>None\<close>
  (no output was captured) raises.
\<close>

definition get_std_out_from_tracker :: "cmd_tracker \<Rightarrow> error + string" where
  "get_std_out_from_tracker cmd_tracker =
     (case stdout_bytes cmd_tracker of
        None \<Rightarrow> Inl AttributeError
      | Some NoData \<Rightarrow> Inl AttributeError
      | Some (Bytes None) \<Rightarrow> Inr ([CHR 0x0A] @ [])
      | Some (Bytes (Some txt)) \<Rightarrow> Inr ([CHR 0x0A] @ strip txt))"

text \<open>
  The loop over the completed trackers: a non-zero return code with the retry counter at
  the limit raises, a non-zero return code below the limit puts the tracker back at the end
  of the pending list, and a zero return code logs the output when it was captured.
\<close>

fun check_completed ::
    "int \<Rightarrow> bool \<Rightarrow> cmd_tracker list \<Rightarrow> cmd_tracker list
      \<Rightarrow> (error + cmd_tracker list) \<times> event list" where
  "check_completed retries_limit output [] to_run = (Inr to_run, [])"
| "check_completed retries_limit output (cmd_tracker # rest) to_run =
     (case popen cmd_tracker of
        None \<Rightarrow> (Inl AttributeError, [])
      | Some p \<Rightarrow>
          if returncode p \<noteq> Some 0 then
            (if int (retries cmd_tracker) = retries_limit then
               (case get_std_out_from_tracker cmd_tracker of
                  Inl e \<Rightarrow> (Inl e, [])
                | Inr stdout_str \<Rightarrow>
                    (Inl RuntimeError,
                     [LoggingInfo ('' - subprocess exited with errors - '' @ stdout_str)]))
             else
               check_completed retries_limit output rest
                 (to_run @ [cmd_tracker\<lparr>retries := retries cmd_tracker + 1, popen := None\<rparr>]))
          else if output then
            (case get_std_out_from_tracker cmd_tracker of
               Inl e \<Rightarrow> (Inl e, [])
             | Inr stdout_str \<Rightarrow>
                 (case check_completed retries_limit output rest to_run of
                    (r, tr) \<Rightarrow> (r, LoggingInfo ('' - subprocess completed - '' @ stdout_str) # tr)))
          else check_completed retries_limit output rest to_run)"

text \<open>
  The outer loop. Its number of rounds is not bounded by the code (a process may never
  exit), so the function observes at most \<open>fuel\<close> rounds and answers \<open>Unfinished\<close> when
  the loop would go on after them.
\<close>

fun run_loop ::
    "nat \<Rightarrow> (nat \<Rightarrow> nat \<Rightarrow> proc_behaviour) \<Rightarrow> int \<Rightarrow> bool \<Rightarrow> bool \<Rightarrow> int
      \<Rightarrow> cmd_tracker list \<Rightarrow> cmd_tracker list \<Rightarrow> outcome \<times> event list" where
  "run_loop fuel env processes shell output retries_limit to_run running =
     (if length to_run > 0 \<or> length running > 0 then
        (case fuel of
           0 \<Rightarrow> (Unfinished, [])
         | Suc fuel' \<Rightarrow>
             (case start_processes env processes shell output to_run running of
                (Inl e, tr1) \<Rightarrow> (Raised e, tr1)
              | (Inr (to_run1, running1), tr1) \<Rightarrow>
                  (case poll_running env output running1 of
                     (Inl e, tr2) \<Rightarrow> (Raised e, tr1 @ tr2)
                   | (Inr (still_running, completed), tr2) \<Rightarrow>
                       (case check_completed retries_limit output completed to_run1 of
                          (Inl e, tr3) \<Rightarrow> (Raised e, tr1 @ tr2 @ tr3)
                        | (Inr to_run2, tr3) \<Rightarrow>
                            (case run_loop fuel' env processes shell output retries_limit
                                    to_run2 still_running of
                               (r, tr4) \<Rightarrow> (r, tr1 @ tr2 @ tr3 @ tr4))))))
      else (Returned, []))"

text \<open>\<^verbatim>\<open>SubprocessPool.run_processes\<close>.\<close>

definition run_processes ::
    "nat \<Rightarrow> (nat \<Rightarrow> nat \<Rightarrow> proc_behaviour) \<Rightarrow> subprocess_pool \<Rightarrow> pyval \<Rightarrow> pyval \<Rightarrow> pyval \<Rightarrow> pyval
      \<Rightarrow> outcome \<times> subprocess_pool \<times> event list" where
  "run_processes fuel env self processes shell output retries_arg =
     (case check_types [(''processes'', processes, TInt), (''shell'', shell, TBool),
                        (''output'', output, TBool), (''retries'', retries_arg, TInt)] of
        Inl e \<Rightarrow> (Raised e, self, [])
      | Inr _ \<Rightarrow>
          if \<not> (0 < int_of processes \<and> int_of processes < 37) then (Raised AssertionError, self, [])
          else if \<not> (0 \<le> int_of retries_arg \<and> int_of retries_arg \<le> 30)
            then (Raised AssertionError, self, [])
          else
            (let to_run = map (\<lambda>(i, c). CMDTracker i c) (enumerate 0 (cmd_list self));
                 self' = self\<lparr>cmd_list := []\<rparr>
             in case run_loop fuel env (int_of processes) (truthy shell) (truthy output)
                       (int_of retries_arg) to_run [] of
                  (r, tr) \<Rightarrow> (r, self', tr)))"

section \<open>Notions used in the statements\<close>

text \<open>A command is acceptable when \<^verbatim>\<open>add_command\<close> stores it.\<close>

definition command_ok :: "pyval \<Rightarrow> bool" where
  "command_ok c = (case add_command SubprocessPool_init c of Inr _ \<Rightarrow> True | Inl _ \<Rightarrow> False)"

text \<open>The arguments of the scheduler's \<^verbatim>\<open>run_processes\<close> that pass all of its checks.\<close>

definition args_ok :: "pyval \<Rightarrow> pyval \<Rightarrow> pyval \<Rightarrow> pyval \<Rightarrow> bool" where
  "args_ok p sh out r \<longleftrightarrow>
     isinstance p TInt \<and> isinstance sh TBool \<and> isinstance out TBool \<and> isinstance r TInt
     \<and> 0 < int_of p \<and> int_of p < 37 \<and> 0 \<le> int_of r \<and> int_of r \<le> 30"

text \<open>The lines handed to \<^verbatim>\<open>logging.info\<close> during a run, in order.\<close>

fun logged :: "event list \<Rightarrow> string list" where
  "logged [] = []"
| "logged (LoggingInfo m # tr) = m # logged tr"
| "logged (_ # tr) = logged tr"

text \<open>The tracker that a \<^verbatim>\<open>communicate\<close> event polls.\<close>

fun polled_tid :: "event \<Rightarrow> nat" where
  "polled_tid (Communicate j b c) = j"
| "polled_tid _ = 0"

text \<open>
  The collected results up to and including the first one whose error flag is set (all of
  them when no flag is set).
\<close>

definition examined :: "(string \<times> bool) list \<Rightarrow> (string \<times> bool) list" where
  "examined rs = takeWhile (\<lambda>r. \<not> snd r) rs @ take 1 (dropWhile (\<lambda>r. \<not> snd r) rs)"

section \<open>Notions used for the scheduling loop\<close>

text \<open>
  The life of a command under a behaviour \<open>env\<close>, seen from its attempt \<open>a\<close> with \<open>n\<close>
  attempts left: \<open>ends\<close> says that every attempt that is made exits (until one exits with
  status zero or no attempt is left), \<open>survives\<close> says in addition that one of them exits
  with status zero, and \<open>work\<close> counts the polls and completions of those attempts.
\<close>

fun ends :: "(nat \<Rightarrow> nat \<Rightarrow> proc_behaviour) \<Rightarrow> nat \<Rightarrow> nat \<Rightarrow> nat \<Rightarrow> bool" where
  "ends env i a 0 = True"
| "ends env i a (Suc n) =
     (case env i a of Exits d rc ob \<Rightarrow> rc = 0 \<or> ends env i (Suc a) n | _ \<Rightarrow> False)"

fun survives :: "(nat \<Rightarrow> nat \<Rightarrow> proc_behaviour) \<Rightarrow> nat \<Rightarrow> nat \<Rightarrow> nat \<Rightarrow> bool" where
  "survives env i a 0 = False"
| "survives env i a (Suc n) =
     (case env i a of Exits d rc ob \<Rightarrow> rc = 0 \<or> survives env i (Suc a) n | _ \<Rightarrow> False)"

fun work :: "(nat \<Rightarrow> nat \<Rightarrow> proc_behaviour) \<Rightarrow> nat \<Rightarrow> nat \<Rightarrow> nat \<Rightarrow> nat" where
  "work env i a 0 = 0"
| "work env i a (Suc n) =
     (case env i a of
        Exits d rc ob \<Rightarrow> Suc d + (if rc = 0 then 0 else work env i (Suc a) n)
      | _ \<Rightarrow> 0)"

text \<open>
  The attempts left to a tracker under the retry limit \<open>Rn\<close>, and the number of timed-out
  polls recorded in its process handle.
\<close>

definition attempts_left :: "nat \<Rightarrow> cmd_tracker \<Rightarrow> nat" where
  "attempts_left Rn t = Suc Rn - retries t"

definition timeouts_of :: "cmd_tracker \<Rightarrow> nat" where
  "timeouts_of t = (case popen t of Some p \<Rightarrow> timeouts p | None \<Rightarrow> 0)"

text \<open>
  What holds of the trackers during a run in which every attempt exits: a pending tracker
  is within the limit, a running one has a process handle that was not polled beyond the exit
  of its process, and a completed one carries the return code and the output of its attempt.
\<close>

definition pending_ok :: "(nat \<Rightarrow> nat \<Rightarrow> proc_behaviour) \<Rightarrow> nat \<Rightarrow> cmd_tracker \<Rightarrow> bool" where
  "pending_ok env Rn t \<longleftrightarrow> retries t \<le> Rn \<and> ends env (tid t) (retries t) (attempts_left Rn t)"

definition running_ok :: "(nat \<Rightarrow> nat \<Rightarrow> proc_behaviour) \<Rightarrow> nat \<Rightarrow> cmd_tracker \<Rightarrow> bool" where
  "running_ok env Rn t \<longleftrightarrow>
     pending_ok env Rn t \<and>
     (case popen t of
        None \<Rightarrow> False
      | Some p \<Rightarrow> (case env (tid t) (retries t) of Exits d rc ob \<Rightarrow> timeouts p \<le> d | _ \<Rightarrow> True))"

definition done_ok :: "(nat \<Rightarrow> nat \<Rightarrow> proc_behaviour) \<Rightarrow> nat \<Rightarrow> bool \<Rightarrow> cmd_tracker \<Rightarrow> bool" where
  "done_ok env Rn out t \<longleftrightarrow>
     pending_ok env Rn t \<and>
     (case (popen t, env (tid t) (retries t)) of
        (Some p, Exits d rc ob) \<Rightarrow>
          returncode p = Some rc \<and> stdout_bytes t = Some (if out then Bytes ob else NoData)
      | _ \<Rightarrow> False)"

text \<open>A tracker whose command still goes on to exit with status zero within the limit.\<close>

definition surv :: "(nat \<Rightarrow> nat \<Rightarrow> proc_behaviour) \<Rightarrow> nat \<Rightarrow> cmd_tracker \<Rightarrow> bool" where
  "surv env Rn t = survives env (tid t) (retries t) (attempts_left Rn t)"

text \<open>
  The polls and completions still ahead of a pending tracker, of a running tracker, and of a
  completed tracker once its current attempt is accounted for.
\<close>

definition pending_work :: "(nat \<Rightarrow> nat \<Rightarrow> proc_behaviour) \<Rightarrow> nat \<Rightarrow> cmd_tracker \<Rightarrow> nat" where
  "pending_work env Rn t = work env (tid t) (retries t) (attempts_left Rn t)"

definition running_work :: "(nat \<Rightarrow> nat \<Rightarrow> proc_behaviour) \<Rightarrow> nat \<Rightarrow> cmd_tracker \<Rightarrow> nat" where
  "running_work env Rn t = pending_work env Rn t - timeouts_of t"

definition after_work :: "(nat \<Rightarrow> nat \<Rightarrow> proc_behaviour) \<Rightarrow> nat \<Rightarrow> cmd_tracker \<Rightarrow> nat" where
  "after_work env Rn t =
     (case env (tid t) (retries t) of
        Exits d rc ob \<Rightarrow> (if rc = 0 then 0 else work env (tid t) (Suc (retries t)) (Rn - retries t))
      | _ \<Rightarrow> 0)"

text \<open>A tracker whose current attempt exits non-zero with the retry counter at the limit.\<close>

definition fatal :: "(nat \<Rightarrow> nat \<Rightarrow> proc_behaviour) \<Rightarrow> nat \<Rightarrow> cmd_tracker \<Rightarrow> bool" where
  "fatal env Rn t \<longleftrightarrow>
     (case env (tid t) (retries t) of Exits d rc ob \<Rightarrow> rc \<noteq> 0 \<and> retries t = Rn | _ \<Rightarrow> False)"

section \<open>Example inputs\<close>

text \<open>Queues of the call pool and behaviours of their calls, used to run the model.\<close>

definition three_calls :: multiprocessing_pool where
  "three_calls = \<lparr>function_call_list =
     [\<lparr>func = 1, arg_tuple = []\<rparr>, \<lparr>func = 2, arg_tuple = [PInt 7]\<rparr>, \<lparr>func = 3, arg_tuple = []\<rparr>]\<rparr>"

definition second_call_raises :: "nat \<Rightarrow> function_call \<Rightarrow> call_behaviour" where
  "second_call_raises i fc =
     (if i = 0 then Returns ''ok''
      else if i = 1 then Raises ''a '' (ExceptionInst ''boom'')
      else Returns ''late'')"

definition one_failing_call :: multiprocessing_pool where
  "one_failing_call = \<lparr>function_call_list = [\<lparr>func = 1, arg_tuple = [PStr ''x'']\<rparr>]\<rparr>"

definition slow_then_failing :: multiprocessing_pool where
  "slow_then_failing = \<lparr>function_call_list = [\<lparr>func = 5, arg_tuple = []\<rparr>, \<lparr>func = 6, arg_tuple = []\<rparr>]\<rparr>"

definition only_second_errors :: "nat \<Rightarrow> function_call \<Rightarrow> call_behaviour" where
  "only_second_errors i fc = (if i = 1 then Raises [] (ExceptionInst ''B failed'') else Returns ''A done'')"

text \<open>Queues of the command scheduler and behaviours of their processes, used to run the model.\<close>

definition two_commands :: subprocess_pool where
  "two_commands = \<lparr>cmd_list = [[''make'', ''all''], [''ls'']]\<rparr>"

definition fails_twice_then_ok :: "nat \<Rightarrow> nat \<Rightarrow> proc_behaviour" where
  "fails_twice_then_ok i a =
     (if i = 0 then (if a < 2 then Exits 1 1 (Some ''error'') else Exits 0 0 (Some ''built''))
      else Exits 2 0 (Some ''listing''))"

definition fails_three_times :: "nat \<Rightarrow> nat \<Rightarrow> proc_behaviour" where
  "fails_three_times i a =
     (if i = 0 then Exits 1 1 (Some ''error'') else Exits 2 0 (Some ''listing''))"

definition four_commands :: subprocess_pool where
  "four_commands = \<lparr>cmd_list = [[''a''], [''b''], [''c''], [''d'', ''-x'']]\<rparr>"

definition last_fails_at_once :: "nat \<Rightarrow> nat \<Rightarrow> proc_behaviour" where
  "last_fails_at_once i a = (if i = 3 then Exits 0 3 (Some '' no such file '') else Exits 5 0 (Some ''ok''))"

section \<open>Basic facts about the operations\<close>

declare start_processes.simps [simp del]
declare run_loop.simps [simp del]

lemma check_types_str_iff:
  "check_types (map (\<lambda>cs. (n, cs, TStr)) xs) =
     (if list_all (\<lambda>x. isinstance x TStr) xs then Inr () else Inl ValidationError)"
  by (induction xs) auto

lemma add_command_cases:
  "add_command s c =
     (if \<not> isinstance c TList then Inl ValidationError
      else if \<not> list_all (\<lambda>x. isinstance x TStr) (list_items c) then Inl ValidationError
      else if list_items c = [] then Inl AssertionError
      else Inr (s\<lparr>cmd_list := cmd_list s @ [map str_of (list_items c)]\<rparr>))"
  by (simp add: add_command_def check_types_str_iff)

lemma command_ok_iff:
  "command_ok c \<longleftrightarrow>
     isinstance c TList \<and> list_all (\<lambda>x. isinstance x TStr) (list_items c) \<and> list_items c \<noteq> []"
  by (simp add: command_ok_def add_command_cases)

lemma add_command_ok:
  "command_ok c \<Longrightarrow> add_command s c = Inr (s\<lparr>cmd_list := cmd_list s @ [map str_of (list_items c)]\<rparr>)"
  by (simp add: command_ok_iff add_command_cases)

lemma add_command_not_ok:
  "\<not> command_ok c \<Longrightarrow> \<exists>e. add_command s c = Inl e \<and> is_validation_error e"
  by (auto simp add: command_ok_iff add_command_cases)

lemma add_commands_loop_prefix:
  "list_all command_ok pre \<Longrightarrow> \<not> command_ok bad \<Longrightarrow>
     \<exists>e. add_commands_loop s (pre @ bad # post) =
            (Inl e, s\<lparr>cmd_list := cmd_list s @ map (\<lambda>c. map str_of (list_items c)) pre\<rparr>)
         \<and> is_validation_error e"
proof (induction pre arbitrary: s)
  case Nil
  then show ?case using add_command_not_ok[of bad s] by auto
next
  case (Cons c pre)
  then show ?case
    using Cons.IH[of "s\<lparr>cmd_list := cmd_list s @ [map str_of (list_items c)]\<rparr>"]
    by (auto simp: add_command_ok)
qed

lemma start_processes_stop:
  "\<not> (int (length running) < P \<and> to_run \<noteq> []) \<Longrightarrow>
     start_processes env P sh out to_run running = (Inr (to_run, running), [])"
  by (subst start_processes.simps) auto

lemma start_processes_step:
  "int (length running) < P \<Longrightarrow> to_run \<noteq> [] \<Longrightarrow>
     start_processes env P sh out to_run running =
       (case env (tid (last to_run)) (retries (last to_run)) of
          SpawnFails \<Rightarrow>
            (Inl OSError,
             [Popen (tid (last to_run)) (retries (last to_run)) (popen_args sh (cmd (last to_run))) sh out])
        | _ \<Rightarrow>
            (case start_processes env P sh out (butlast to_run)
                    (running @ [(last to_run)\<lparr>popen := Some \<lparr>timeouts = 0, returncode = None\<rparr>\<rparr>]) of
               (r, tr) \<Rightarrow>
                 (r, Popen (tid (last to_run)) (retries (last to_run))
                       (popen_args sh (cmd (last to_run))) sh out # tr)))"
  by (subst start_processes.simps) (simp add: Let_def)

lemma start_processes_error:
  "start_processes env P sh out to_run running = (Inl e, tr) \<Longrightarrow> e = OSError"
proof (induction env P sh out to_run running arbitrary: tr rule: start_processes.induct)
  case (1 env P sh out to_run running)
  show ?case
  proof (cases "int (length running) < P \<and> to_run \<noteq> []")
    case False
    with "1.prems" show ?thesis by (simp add: start_processes_stop)
  next
    case True
    then have c: "int (length running) < P \<and> 0 < length to_run" by simp
    show ?thesis
    proof (cases "env (tid (last to_run)) (retries (last to_run))")
      case SpawnFails
      with True "1.prems" show ?thesis by (simp add: start_processes_step)
    next
      case (Exits d rc ob)
      with True "1.prems" "1.IH"(1)[OF c refl refl Exits] show ?thesis
        by (auto simp add: start_processes_step split: prod.splits)
    next
      case Hangs
      with True "1.prems" "1.IH"(2)[OF c refl refl Hangs] show ?thesis
        by (auto simp add: start_processes_step split: prod.splits)
    qed
  qed
qed

lemma poll_running_error:
  "poll_running env out running = (Inl e, tr) \<Longrightarrow> e = AttributeError"
  by (induction running arbitrary: tr)
     (auto simp: Let_def split: option.splits prod.splits sum.splits proc_behaviour.splits if_splits)

lemma get_std_out_error:
  "get_std_out_from_tracker t = Inl e \<Longrightarrow> e = AttributeError"
  by (auto simp: get_std_out_from_tracker_def split: option.splits stdout_data.splits)

lemma check_completed_error:
  "check_completed R out completed to_run = (Inl e, tr) \<Longrightarrow> e = RuntimeError \<or> e = AttributeError"
  by (induction completed arbitrary: to_run tr)
     (auto simp: Let_def split: option.splits prod.splits sum.splits if_splits dest: get_std_out_error)

lemma run_loop_error:
  "run_loop fuel env P sh out R to_run running = (Raised e, tr) \<Longrightarrow> \<not> is_validation_error e"
proof (induction fuel arbitrary: to_run running tr)
  case 0
  then show ?case by (simp add: run_loop.simps split: if_splits)
next
  case (Suc fuel)
  from Suc.prems show ?case
    apply (subst (asm) run_loop.simps)
    apply (auto split: if_splits prod.splits sum.splits
                dest!: start_processes_error poll_running_error check_completed_error Suc.IH)
    done
qed

lemma run_processes_args_ok:
  "args_ok p sh out r \<Longrightarrow>
   run_processes fuel env sp p sh out r =
     (case run_loop fuel env (int_of p) (truthy sh) (truthy out) (int_of r)
             (map (\<lambda>(i, c). CMDTracker i c) (enumerate 0 (cmd_list sp))) [] of
        (res, tr) \<Rightarrow> (res, sp\<lparr>cmd_list := []\<rparr>, tr))"
  by (simp add: run_processes_def args_ok_def Let_def)

lemma run_processes_args_bad:
  "\<not> args_ok p sh out r \<Longrightarrow>
   \<exists>e. is_validation_error e \<and>
       (\<forall>fuel env sp. run_processes fuel env sp p sh out r = (Raised e, sp, []))"
  unfolding args_ok_def run_processes_def
  by (cases "isinstance p TInt"; cases "isinstance sh TBool"; cases "isinstance out TBool";
      cases "isinstance r TInt"; cases "0 < int_of p \<and> int_of p < 37";
      cases "0 \<le> int_of r \<and> int_of r \<le> 30")
     (simp_all | (rule exI[of _ AssertionError], simp) | (rule exI[of _ ValidationError], simp))+

lemma args_ok_processes:
  "args_ok p sh out r \<Longrightarrow> isinstance p TInt \<and> 1 \<le> int_of p \<and> int_of p \<le> 36"
  by (auto simp: args_ok_def)

lemma args_ok_retries:
  "args_ok p sh out r \<Longrightarrow> isinstance r TInt \<and> 0 \<le> int_of r \<and> int_of r \<le> 30"
  by (auto simp: args_ok_def)

lemma run_processes_validation_only_args:
  assumes "run_processes fuel env sp p sh out r = (Raised e, sp', tr)" and "is_validation_error e"
  shows "run_processes fuel2 env2 sp2 p sh out r = (Raised e, sp2, [])"
proof (cases "args_ok p sh out r")
  case False
  then obtain e' where e': "\<forall>fuel env sp. run_processes fuel env sp p sh out r = (Raised e', sp, [])"
    using run_processes_args_bad by blast
  with assms(1) have "e' = e" by simp
  with e' show ?thesis by simp
next
  case True
  obtain res tr' where l: "run_loop fuel env (int_of p) (truthy sh) (truthy out) (int_of r)
             (map (\<lambda>(i, c). CMDTracker i c) (enumerate 0 (cmd_list sp))) [] = (res, tr')"
    by (cases "run_loop fuel env (int_of p) (truthy sh) (truthy out) (int_of r)
             (map (\<lambda>(i, c). CMDTracker i c) (enumerate 0 (cmd_list sp))) []")
  with True assms(1) have "res = Raised e" by (simp add: run_processes_args_ok)
  with l assms(2) show ?thesis using run_loop_error by blast
qed

lemma log_the_logs_error:
  "log_the_logs rs = (Inl e, tr) \<Longrightarrow> e = RuntimeError"
  by (induction rs arbitrary: tr) (auto simp: Let_def split: if_splits prod.splits)

lemma mp_run_processes_invalid:
  "\<not> (isinstance p TInt \<and> 0 < int_of p \<and> int_of p < 37) \<Longrightarrow>
   mp_run_processes b mp p = (Raised AssertionError, mp, [])"
  by (auto simp add: mp_run_processes_def)

lemma mp_run_processes_valid_unfold:
  "isinstance p TInt \<Longrightarrow> 0 < int_of p \<Longrightarrow> int_of p < 37 \<Longrightarrow>
   mp_run_processes b mp p =
     (case get_results 0 (workers b (function_call_list mp)) of
        (None, gets) \<Rightarrow> (Unfinished, mp, PoolCreate (int_of p) # dispatch (function_call_list mp) @ gets)
      | (Some log_str_list, gets) \<Rightarrow>
          (case log_the_logs log_str_list of
             (Inl e, logs) \<Rightarrow>
               (Raised e, mp, PoolCreate (int_of p) # dispatch (function_call_list mp) @ gets @ logs)
           | (Inr _, logs) \<Rightarrow>
               (Returned, mp,
                PoolCreate (int_of p) # dispatch (function_call_list mp) @ gets @ logs @ [PoolClose])))"
  by (simp add: mp_run_processes_def Let_def split: prod.splits option.splits sum.splits)

lemma mp_run_processes_valid_error:
  assumes "isinstance p TInt" "0 < int_of p" "int_of p < 37"
    and "mp_run_processes b mp p = (Raised e, mp', tr)"
  shows "e = RuntimeError"
proof -
  obtain res gets where g: "get_results 0 (workers b (function_call_list mp)) = (res, gets)"
    by (cases "get_results 0 (workers b (function_call_list mp))")
  show ?thesis
  proof (cases res)
    case None
    with g assms show ?thesis by (simp add: mp_run_processes_valid_unfold)
  next
    case (Some rs)
    obtain r logs where l: "log_the_logs rs = (r, logs)" by (cases "log_the_logs rs")
    show ?thesis
    proof (cases r)
      case (Inl e')
      with l have "e' = RuntimeError" using log_the_logs_error by blast
      with Inl l g Some assms show ?thesis by (simp add: mp_run_processes_valid_unfold)
    next
      case (Inr u)
      with l g Some assms show ?thesis by (simp add: mp_run_processes_valid_unfold)
    qed
  qed
qed

lemma mp_run_processes_validation_only_args:
  assumes "mp_run_processes b mp p = (Raised e, mp', tr)" and "is_validation_error e"
  shows "mp_run_processes b2 mp2 p = (Raised e, mp2, [])"
proof (cases "isinstance p TInt \<and> 0 < int_of p \<and> int_of p < 37")
  case True
  with assms(1) have "e = RuntimeError" using mp_run_processes_valid_error by blast
  with assms(2) show ?thesis by simp
next
  case False
  with assms(1) have "e = AssertionError" by (simp add: mp_run_processes_invalid)
  with False show ?thesis by (simp add: mp_run_processes_invalid)
qed

section \<open>The worker boundary\<close>

text \<open>
  Claim C7. Whatever a callable does short of not handing control back, the worker function
  returns a pair of the stripped captured log and a flag: after a normal return the flag is
  unset; an error raised by the callable (an instance of \<^verbatim>\<open>Exception\<close>) is caught, its
  text is logged into the buffer of the call, and the flag is set. What the coordinator's
  \<^verbatim>\<open>get\<close> hands over is this pair of a text and a boolean, not the error object.
\<close>

theorem worker_turns_error_into_flag:
  "(behaviour fc = Returns lg \<longrightarrow>
      call_func_and_return_log_and_error_caught behaviour fc = WorkerReturn (strip lg) False
      \<and> result_get (call_func_and_return_log_and_error_caught behaviour fc) = Some (strip lg, False))
   \<and> (behaviour fc = Raises lg (ExceptionInst txt) \<longrightarrow>
      call_func_and_return_log_and_error_caught behaviour fc = WorkerReturn (strip (lg @ txt)) True
      \<and> result_get (call_func_and_return_log_and_error_caught behaviour fc) = Some (strip (lg @ txt), True))"
  by (simp add: call_func_and_return_log_and_error_caught_def log_last_error_def)

theorem worker_turns_error_into_flag_witness:
  "(\<lambda>_. Returns '' done '') \<lparr>func = 0, arg_tuple = []\<rparr> = Returns '' done ''
   \<and> call_func_and_return_log_and_error_caught (\<lambda>_. Returns '' done '') \<lparr>func = 0, arg_tuple = []\<rparr>
       = WorkerReturn ''done'' False
   \<and> (\<lambda>_. Raises ''step 1 '' (ExceptionInst ''ValueError: boom '')) \<lparr>func = 0, arg_tuple = [PInt 3]\<rparr>
       = Raises ''step 1 '' (ExceptionInst ''ValueError: boom '')
   \<and> result_get (call_func_and_return_log_and_error_caught
         (\<lambda>_. Raises ''step 1 '' (ExceptionInst ''ValueError: boom '')) \<lparr>func = 0, arg_tuple = [PInt 3]\<rparr>)
       = Some (''step 1 ValueError: boom'', True)"
  using worker_turns_error_into_flag[of "\<lambda>_. Returns '' done ''" "\<lparr>func = 0, arg_tuple = []\<rparr>"
          "'' done ''" "[]"]
        worker_turns_error_into_flag[of "\<lambda>_. Raises ''step 1 '' (ExceptionInst ''ValueError: boom '')"
          "\<lparr>func = 0, arg_tuple = [PInt 3]\<rparr>" "''step 1 ''" "''ValueError: boom ''"]
  by (simp add: strip_def isspace_def)

section \<open>Validation\<close>

text \<open>
  Claim C8. A concurrency value that is not an integer from 1 to 36 makes
  \<^verbatim>\<open>run_processes\<close> of either executor raise a validation error, and so does a retries
  value of the command scheduler that is not an integer from 0 to 30. In each case the
  executor is returned as it was (the pending queue is unchanged) and no event has
  happened: no worker pool was created and no process was started.
\<close>

theorem run_rejects_bad_arguments:
  "(\<not> (isinstance p TInt \<and> 1 \<le> int_of p \<and> int_of p \<le> 36) \<longrightarrow>
      (\<exists>e. is_validation_error e \<and> mp_run_processes b mp p = (Raised e, mp, []))
    \<and> (\<exists>e. is_validation_error e \<and> run_processes fuel env sp p sh out r = (Raised e, sp, [])))
   \<and> (\<not> (isinstance r TInt \<and> 0 \<le> int_of r \<and> int_of r \<le> 30) \<longrightarrow>
      (\<exists>e. is_validation_error e \<and> run_processes fuel env sp p sh out r = (Raised e, sp, [])))"
proof (intro conjI impI)
  assume a: "\<not> (isinstance p TInt \<and> 1 \<le> int_of p \<and> int_of p \<le> 36)"
  then have "\<not> (isinstance p TInt \<and> 0 < int_of p \<and> int_of p < 37)" by auto
  then have "mp_run_processes b mp p = (Raised AssertionError, mp, [])"
    by (rule mp_run_processes_invalid)
  then show "\<exists>e. is_validation_error e \<and> mp_run_processes b mp p = (Raised e, mp, [])"
    by (intro exI[of _ AssertionError]) simp
  from a have "\<not> args_ok p sh out r" using args_ok_processes by blast
  then show "\<exists>e. is_validation_error e \<and> run_processes fuel env sp p sh out r = (Raised e, sp, [])"
    using run_processes_args_bad by blast
next
  assume "\<not> (isinstance r TInt \<and> 0 \<le> int_of r \<and> int_of r \<le> 30)"
  then have "\<not> args_ok p sh out r" using args_ok_retries by blast
  then show "\<exists>e. is_validation_error e \<and> run_processes fuel env sp p sh out r = (Raised e, sp, [])"
    using run_processes_args_bad by blast
qed

theorem run_rejects_bad_arguments_witness:
  "\<not> (isinstance (PInt 37) TInt \<and> 1 \<le> int_of (PInt 37) \<and> int_of (PInt 37) \<le> 36)
   \<and> (\<exists>e. is_validation_error e \<and>
          mp_run_processes (\<lambda>i fc. Returns []) \<lparr>function_call_list = [\<lparr>func = 0, arg_tuple = []\<rparr>]\<rparr> (PInt 37)
            = (Raised e, \<lparr>function_call_list = [\<lparr>func = 0, arg_tuple = []\<rparr>]\<rparr>, []))
   \<and> (\<exists>e. is_validation_error e \<and>
          run_processes 5 (\<lambda>i a. Exits 0 0 None) \<lparr>cmd_list = [[''ls'']]\<rparr> (PInt 37) (PBool False) (PBool True) (PInt 31)
            = (Raised e, \<lparr>cmd_list = [[''ls'']]\<rparr>, []))
   \<and> \<not> (isinstance (PInt 31) TInt \<and> 0 \<le> int_of (PInt 31) \<and> int_of (PInt 31) \<le> 30)"
  using run_rejects_bad_arguments[of "PInt 37" "\<lambda>i fc. Returns []"
          "\<lparr>function_call_list = [\<lparr>func = 0, arg_tuple = []\<rparr>]\<rparr>" 5 "\<lambda>i a. Exits 0 0 None"
          "\<lparr>cmd_list = [[''ls'']]\<rparr>" "PBool False" "PBool True" "PInt 31"]
  by simp

text \<open>
  Claim C9. An empty command and a command with an element that is not a string are
  refused by \<^verbatim>\<open>add_command\<close>, and a call descriptor with a first argument that is not
  callable or a second argument that is not a tuple is refused by its constructor, in every
  state of the executor; no run is involved. A validation error that a run raises depends on
  the arguments of the run only: the same arguments raise it for every queue, without any
  event, so it never concerns an item that was accepted.
\<close>

theorem validation_at_add_time:
  "add_command sp (PList []) = Inl AssertionError
   \<and> (x \<in> set xs \<and> \<not> isinstance x TStr \<longrightarrow> add_command sp (PList xs) = Inl ValidationError)
   \<and> (\<not> callable f \<longrightarrow> FunctionCall_init f a = Inl AssertionError)
   \<and> (\<not> isinstance a TTuple \<longrightarrow> FunctionCall_init f a = Inl AssertionError)
   \<and> (run_processes fuel env sp p sh out r = (Raised e, sp', tr) \<and> is_validation_error e \<longrightarrow>
        (\<forall>fuel2 env2 sp2. run_processes fuel2 env2 sp2 p sh out r = (Raised e, sp2, [])))
   \<and> (mp_run_processes b mp p = (Raised e, mp', tr) \<and> is_validation_error e \<longrightarrow>
        (\<forall>b2 mp2. mp_run_processes b2 mp2 p = (Raised e, mp2, [])))"
proof -
  have 1: "add_command sp (PList []) = Inl AssertionError"
    by (simp add: add_command_def)
  have 2: "x \<in> set xs \<and> \<not> isinstance x TStr \<longrightarrow> add_command sp (PList xs) = Inl ValidationError"
    by (auto simp: add_command_cases list_all_iff)
  have 3: "\<not> callable f \<longrightarrow> FunctionCall_init f a = Inl AssertionError"
    by (simp add: FunctionCall_init_def)
  have 4: "\<not> isinstance a TTuple \<longrightarrow> FunctionCall_init f a = Inl AssertionError"
    by (simp add: FunctionCall_init_def)
  have 5: "run_processes fuel env sp p sh out r = (Raised e, sp', tr) \<and> is_validation_error e \<longrightarrow>
        (\<forall>fuel2 env2 sp2. run_processes fuel2 env2 sp2 p sh out r = (Raised e, sp2, []))"
    by (intro impI allI, elim conjE) (rule run_processes_validation_only_args)
  have 6: "mp_run_processes b mp p = (Raised e, mp', tr) \<and> is_validation_error e \<longrightarrow>
        (\<forall>b2 mp2. mp_run_processes b2 mp2 p = (Raised e, mp2, []))"
    by (intro impI allI, elim conjE) (rule mp_run_processes_validation_only_args)
  show ?thesis
    by (intro conjI 1 2 3 4 5 6)
qed

theorem validation_at_add_time_witness:
  "add_command \<lparr>cmd_list = [[''pwd'']]\<rparr> (PList []) = Inl AssertionError
   \<and> PInt 1 \<in> set [PStr ''ls'', PInt 1] \<and> \<not> isinstance (PInt 1) TStr
   \<and> add_command \<lparr>cmd_list = [[''pwd'']]\<rparr> (PList [PStr ''ls'', PInt 1]) = Inl ValidationError
   \<and> \<not> callable (PStr ''f'') \<and> \<not> isinstance (PList []) TTuple
   \<and> FunctionCall_init (PStr ''f'') (PList []) = Inl AssertionError
   \<and> run_processes 1 (\<lambda>i a. Hangs) \<lparr>cmd_list = [[''pwd'']]\<rparr> (PInt 0) (PBool False) (PBool True) (PInt 0)
        = (Raised AssertionError, \<lparr>cmd_list = [[''pwd'']]\<rparr>, [])
   \<and> is_validation_error AssertionError
   \<and> (\<forall>fuel2 env2 sp2.
         run_processes fuel2 env2 sp2 (PInt 0) (PBool False) (PBool True) (PInt 0)
           = (Raised AssertionError, sp2, []))
   \<and> mp_run_processes (\<lambda>i fc. NoReturn) \<lparr>function_call_list = []\<rparr> (PInt 0)
        = (Raised AssertionError, \<lparr>function_call_list = []\<rparr>, [])
   \<and> (\<forall>b2 mp2. mp_run_processes b2 mp2 (PInt 0) = (Raised AssertionError, mp2, []))"
proof -
  have r: "run_processes 1 (\<lambda>i a. Hangs) \<lparr>cmd_list = [[''pwd'']]\<rparr> (PInt 0) (PBool False) (PBool True) (PInt 0)
        = (Raised AssertionError, \<lparr>cmd_list = [[''pwd'']]\<rparr>, [])"
    by (simp add: run_processes_def)
  have m: "mp_run_processes (\<lambda>i fc. NoReturn) \<lparr>function_call_list = []\<rparr> (PInt 0)
        = (Raised AssertionError, \<lparr>function_call_list = []\<rparr>, [])"
    by (simp add: mp_run_processes_def)
  show ?thesis
    using r m
      validation_at_add_time[where sp = "\<lparr>cmd_list = [[''pwd'']]\<rparr>" and x = "PInt 1"
        and xs = "[PStr ''ls'', PInt 1]" and f = "PStr ''f''" and a = "PList []" and fuel = 1
        and env = "\<lambda>i a. Hangs" and p = "PInt 0" and sh = "PBool False" and out = "PBool True"
        and r = "PInt 0" and e = AssertionError and sp' = "\<lparr>cmd_list = [[''pwd'']]\<rparr>" and tr = "[]"
        and b = "\<lambda>i fc. NoReturn" and mp = "\<lparr>function_call_list = []\<rparr>"
        and mp' = "\<lparr>function_call_list = []\<rparr>"]
    by simp
qed

text \<open>
  Claim C10. \<^verbatim>\<open>add_list_of_commands\<close> is not atomic: when the candidates start with
  \<open>k\<close> acceptable commands followed by one that is refused, the call raises the validation
  error of that one, and the queue has grown by exactly the \<open>k\<close> commands before it.
\<close>

theorem add_list_of_commands_not_atomic:
  assumes "list_all command_ok pre" and "\<not> command_ok bad"
  shows "\<exists>e. add_list_of_commands s (PList (pre @ bad # post)) =
            (Inl e, s\<lparr>cmd_list := cmd_list s @ map (\<lambda>c. map str_of (list_items c)) pre\<rparr>)
         \<and> is_validation_error e"
  using add_commands_loop_prefix[OF assms] by (simp add: add_list_of_commands_def)

theorem add_list_of_commands_not_atomic_witness:
  "list_all command_ok [PList [PStr ''ls''], PList [PStr ''echo'', PStr ''a'']]
   \<and> \<not> command_ok (PList [])
   \<and> (\<exists>e. add_list_of_commands \<lparr>cmd_list = [[''pwd'']]\<rparr>
              (PList ([PList [PStr ''ls''], PList [PStr ''echo'', PStr ''a'']]
                       @ PList [] # [PList [PStr ''date'']])) =
            (Inl e, \<lparr>cmd_list = [[''pwd''], [''ls''], [''echo'', ''a'']]\<rparr>)
          \<and> is_validation_error e)"
proof -
  have a: "list_all command_ok [PList [PStr ''ls''], PList [PStr ''echo'', PStr ''a'']]"
    by (simp add: command_ok_iff)
  have b: "\<not> command_ok (PList [])" by (simp add: command_ok_iff)
  show ?thesis
    using a b add_list_of_commands_not_atomic[OF a b, of "\<lparr>cmd_list = [[''pwd'']]\<rparr>"
                "[PList [PStr ''date'']]"]
    by simp
qed

section \<open>The run of the call pool\<close>

lemma get_results_Some:
  "get_results i ws = (Some rs, gets) \<Longrightarrow>
     gets = map ResultGet [i..<i + length ws] \<and> map result_get ws = map Some rs"
proof (induction ws arbitrary: i rs gets)
  case Nil
  then show ?case by simp
next
  case (Cons w ws)
  from Cons.prems obtain v vs tr where v: "result_get w = Some v"
    and g: "get_results (Suc i) ws = (Some vs, tr)" and rs: "rs = v # vs" and gets: "gets = ResultGet i # tr"
    by (auto split: option.splits prod.splits)
  from Cons.IH[OF g] have "tr = map ResultGet [Suc i..<Suc i + length ws]" and "map result_get ws = map Some vs"
    by simp_all
  moreover have "[i..<i + length (w # ws)] = i # [Suc i..<Suc i + length ws]"
    using upt_conv_Cons[of i "i + Suc (length ws)"] by (simp del: upt_Suc)
  ultimately show ?case using v rs gets by simp
qed

lemma log_the_logs_trace:
  "snd (log_the_logs rs) =
     map LoggingInfo (map call_completed_message (filter (\<lambda>l. l \<noteq> []) (map fst (examined rs))))"
  by (induction rs) (auto simp: examined_def Let_def split: prod.splits)

lemma log_the_logs_result:
  "fst (log_the_logs rs) = (if list_ex snd rs then Inl RuntimeError else Inr ())"
  by (induction rs) (auto simp: Let_def split: prod.splits)

lemma logged_append: "logged (xs @ ys) = logged xs @ logged ys"
  by (induction xs rule: logged.induct) auto

lemma logged_LoggingInfo: "logged (map LoggingInfo ms) = ms"
  by (induction ms) auto

lemma logged_LoggingInfo_comp: "logged (map (LoggingInfo \<circ> f) xs) = map f xs"
  by (induction xs) auto

lemma logged_ResultGet: "logged (map ResultGet is) = []"
  by (induction "is") auto

lemma logged_dispatch: "logged (dispatch calls) = []"
proof -
  have "logged (map (\<lambda>(i, fc). ApplyAsync i fc) xs) = []" for xs
    by (induction xs) auto
  then show ?thesis by (simp add: dispatch_def)
qed

lemmas mp_eval = mp_run_processes_def dispatch_def workers_def
  call_func_and_return_log_and_error_caught_def log_last_error_def strip_def isspace_def
  call_completed_message_def Let_def

text \<open>
  Claim C2, as the code has it. When all results have been collected, the lines logged by
  the run are the non-empty log texts of the results up to and including the first one whose
  error flag is set, in collection order, and nothing else; the run raises exactly when some
  result carries the flag. The logs of the results after the first erroring one are not
  reported.
\<close>

theorem logs_up_to_first_error:
  assumes "isinstance p TInt" "0 < int_of p" "int_of p < 37"
      and "get_results 0 (workers b (function_call_list mp)) = (Some rs, gets)"
  shows "logged (snd (snd (mp_run_processes b mp p))) =
           map call_completed_message (filter (\<lambda>l. l \<noteq> []) (map fst (examined rs)))
         \<and> fst (mp_run_processes b mp p) = (if list_ex snd rs then Raised RuntimeError else Returned)"
proof -
  obtain r logs where l: "log_the_logs rs = (r, logs)" by (cases "log_the_logs rs")
  from l have logs: "logs = map LoggingInfo (map call_completed_message (filter (\<lambda>l. l \<noteq> []) (map fst (examined rs))))"
    using log_the_logs_trace[of rs] by simp
  from l have r: "r = (if list_ex snd rs then Inl RuntimeError else Inr ())"
    using log_the_logs_result[of rs] by simp
  from get_results_Some[OF assms(4)] have gets: "logged gets = []"
    by (simp add: logged_ResultGet)
  show ?thesis
    using assms l r gets
    by (simp add: mp_run_processes_valid_unfold logged_append logged_dispatch logged_LoggingInfo logged_LoggingInfo_comp logs)
qed

text \<open>
  Claim C2 does not hold as stated: the \<^verbatim>\<open>raise\<close> sits inside the loop that logs the
  results. With three calls of which the second raises, the third call returned the log
  \<open>late\<close>, the run raises, and that log was never handed to \<^verbatim>\<open>logging.info\<close>.
\<close>

theorem later_log_not_reported:
  "fst (mp_run_processes second_call_raises three_calls (PInt 2)) = Raised RuntimeError
   \<and> map result_get (workers second_call_raises (function_call_list three_calls))
       = [Some (''ok'', False), Some (''a boom'', True), Some (''late'', False)]
   \<and> LoggingInfo (call_completed_message ''late'')
       \<notin> set (snd (snd (mp_run_processes second_call_raises three_calls (PInt 2))))"
  by (simp add: mp_eval three_calls_def second_call_raises_def)

theorem logs_up_to_first_error_witness:
  "isinstance (PInt 2) TInt \<and> 0 < int_of (PInt 2) \<and> int_of (PInt 2) < 37
   \<and> get_results 0 (workers second_call_raises (function_call_list three_calls))
       = (Some [(''ok'', False), (''a boom'', True), (''late'', False)], [ResultGet 0, ResultGet 1, ResultGet 2])
   \<and> logged (snd (snd (mp_run_processes second_call_raises three_calls (PInt 2))))
       = [call_completed_message ''ok'', call_completed_message ''a boom'']
   \<and> fst (mp_run_processes second_call_raises three_calls (PInt 2)) = Raised RuntimeError"
proof -
  have g: "get_results 0 (workers second_call_raises (function_call_list three_calls))
       = (Some [(''ok'', False), (''a boom'', True), (''late'', False)], [ResultGet 0, ResultGet 1, ResultGet 2])"
    by (simp add: mp_eval three_calls_def second_call_raises_def)
  have p: "isinstance (PInt 2) TInt" "0 < int_of (PInt 2)" "int_of (PInt 2) < 37" by simp_all
  show ?thesis
    using g logs_up_to_first_error[OF p g] by (simp add: examined_def)
qed


lemma PoolClose_notin_dispatch: "PoolClose \<notin> set (dispatch calls)"
  by (auto simp: dispatch_def)

lemma log_the_logs_events: "ev \<in> set (snd (log_the_logs rs)) \<Longrightarrow> \<exists>m. ev = LoggingInfo m"
  by (simp add: log_the_logs_trace) auto

lemma mp_run_cases:
  assumes "mp_run_processes b mp p = (r, mp', tr)"
  obtains (invalid) "\<not> (isinstance p TInt \<and> 0 < int_of p \<and> int_of p < 37)"
            "r = Raised AssertionError" "tr = []" "mp' = mp"
  | (blocked) gets where "isinstance p TInt \<and> 0 < int_of p \<and> int_of p < 37"
            "get_results 0 (workers b (function_call_list mp)) = (None, gets)"
            "r = Unfinished" "tr = PoolCreate (int_of p) # dispatch (function_call_list mp) @ gets" "mp' = mp"
  | (failed) rs logs where "isinstance p TInt \<and> 0 < int_of p \<and> int_of p < 37"
            "get_results 0 (workers b (function_call_list mp))
               = (Some rs, map ResultGet [0..<length (function_call_list mp)])"
            "map result_get (workers b (function_call_list mp)) = map Some rs"
            "log_the_logs rs = (Inl RuntimeError, logs)" "r = Raised RuntimeError"
            "tr = PoolCreate (int_of p) # dispatch (function_call_list mp)
                    @ map ResultGet [0..<length (function_call_list mp)] @ logs" "mp' = mp"
  | (succeeded) rs logs where "isinstance p TInt \<and> 0 < int_of p \<and> int_of p < 37"
            "get_results 0 (workers b (function_call_list mp))
               = (Some rs, map ResultGet [0..<length (function_call_list mp)])"
            "map result_get (workers b (function_call_list mp)) = map Some rs"
            "log_the_logs rs = (Inr (), logs)" "r = Returned"
            "tr = PoolCreate (int_of p) # dispatch (function_call_list mp)
                    @ map ResultGet [0..<length (function_call_list mp)] @ logs @ [PoolClose]" "mp' = mp"
proof (cases "isinstance p TInt \<and> 0 < int_of p \<and> int_of p < 37")
  case False
  with assms have "r = Raised AssertionError \<and> tr = [] \<and> mp' = mp"
    by (auto simp add: mp_run_processes_invalid)
  with False invalid show ?thesis by blast
next
  case True
  obtain res gets where g: "get_results 0 (workers b (function_call_list mp)) = (res, gets)"
    by (cases "get_results 0 (workers b (function_call_list mp))")
  show ?thesis
  proof (cases res)
    case None
    have "r = Unfinished \<and> tr = PoolCreate (int_of p) # dispatch (function_call_list mp) @ gets \<and> mp' = mp"
      using True g None assms by (auto simp add: mp_run_processes_valid_unfold)
    then show ?thesis using blocked[of gets] True g None by blast
  next
    case (Some rs)
    from get_results_Some[OF g[unfolded Some]]
    have gets: "gets = map ResultGet [0..<length (function_call_list mp)]"
      and rs: "map result_get (workers b (function_call_list mp)) = map Some rs"
      by (simp_all add: workers_def)
    obtain x logs where l: "log_the_logs rs = (x, logs)" by (cases "log_the_logs rs")
    show ?thesis
    proof (cases x)
      case (Inl e)
      with l have "e = RuntimeError" using log_the_logs_error by blast
      with Inl l g Some True assms
      have "r = Raised RuntimeError \<and> tr = PoolCreate (int_of p) # dispatch (function_call_list mp) @ gets @ logs
            \<and> mp' = mp"
        by (auto simp add: mp_run_processes_valid_unfold)
      then show ?thesis using failed[of rs logs] True g Some gets rs l Inl \<open>e = RuntimeError\<close> by blast
    next
      case (Inr u)
      with l g Some True assms
      have "r = Returned \<and> tr = PoolCreate (int_of p) # dispatch (function_call_list mp) @ gets @ logs @ [PoolClose]
            \<and> mp' = mp"
        by (auto simp add: mp_run_processes_valid_unfold)
      then show ?thesis using succeeded[of rs logs] True g Some gets rs l Inr by simp
    qed
  qed
qed

text \<open>
  On the success path the pool is released: a run that returns has closed the worker pool
  as its last action, once, after the result of every call was collected.
\<close>

lemma pool_closed_when_run_returns:
  assumes "mp_run_processes b mp p = (Returned, mp', tr)"
  shows "\<exists>pre. tr = pre @ [PoolClose] \<and> PoolClose \<notin> set pre
               \<and> (\<forall>i < length (function_call_list mp). ResultGet i \<in> set pre)"
  using assms
proof (cases rule: mp_run_cases)
  case (succeeded rs logs)
  have "PoolClose \<notin> set logs" using log_the_logs_events[of PoolClose rs] succeeded(4) by auto
  with succeeded show ?thesis
    by (intro exI[of _ "PoolCreate (int_of p) # dispatch (function_call_list mp)
                    @ map ResultGet [0..<length (function_call_list mp)] @ logs"])
       (auto simp: PoolClose_notin_dispatch)
qed simp_all

text \<open>
  Claim C3 asks that the worker pool be released once all results have been collected, on
  the failure path as well. The code misses that path: \<^verbatim>\<open>pool.close()\<close> stands after the
  loop, and the \<^verbatim>\<open>raise\<close> inside the loop leaves the function before it. With one call
  that raises, the result is collected, its log is handed to \<^verbatim>\<open>logging.info\<close>, the run
  ends with the aggregate error, and the pool that the run created was never closed.
\<close>

theorem pool_not_closed_on_failure:
  "mp_run_processes (\<lambda>i fc. Raises [] (ExceptionInst ''boom'')) one_failing_call (PInt 1) =
     (Raised RuntimeError, one_failing_call,
      [PoolCreate 1, ApplyAsync 0 \<lparr>func = 1, arg_tuple = [PStr ''x'']\<rparr>, ResultGet 0,
       LoggingInfo (call_completed_message ''boom'')])
   \<and> PoolClose \<notin> set (snd (snd (mp_run_processes (\<lambda>i fc. Raises [] (ExceptionInst ''boom''))
                                     one_failing_call (PInt 1))))"
  by (simp add: mp_eval one_failing_call_def)

text \<open>
  Claim C6. When the run of the call pool raises its aggregate error, the events before it
  are: the pool is created, every call is dispatched, the result of every call is collected
  in dispatch order, and only then come the logged lines. Every dispatched call has delivered
  its result, so an erroring call did not cut the collection short.
\<close>

theorem error_after_all_results_collected:
  assumes "mp_run_processes b mp p = (Raised RuntimeError, mp', tr)"
  shows "\<exists>logs. tr = PoolCreate (int_of p) # dispatch (function_call_list mp)
                     @ map ResultGet [0..<length (function_call_list mp)] @ map LoggingInfo logs
         \<and> (\<forall>i < length (function_call_list mp).
               result_get (workers b (function_call_list mp) ! i) \<noteq> None)"
  using assms
proof (cases rule: mp_run_cases)
  case (failed rs logs)
  have len: "length (workers b (function_call_list mp)) = length (function_call_list mp)"
    by (simp add: workers_def)
  have "\<forall>i < length (function_call_list mp). result_get (workers b (function_call_list mp) ! i) \<noteq> None"
  proof (intro allI impI)
    fix i assume i: "i < length (function_call_list mp)"
    then have "map result_get (workers b (function_call_list mp)) ! i
                 = result_get (workers b (function_call_list mp) ! i)"
      using len by simp
    moreover have "map Some rs ! i = Some (rs ! i)"
      using i len failed(3) by (metis length_map nth_map)
    ultimately have "result_get (workers b (function_call_list mp) ! i) = Some (rs ! i)"
      using failed(3) by simp
    then show "result_get (workers b (function_call_list mp) ! i) \<noteq> None" by simp
  qed
  moreover have "logs = map LoggingInfo (map call_completed_message (filter (\<lambda>l. l \<noteq> []) (map fst (examined rs))))"
    using log_the_logs_trace[of rs] failed(4) by simp
  ultimately show ?thesis using failed(6) by blast
qed simp_all

theorem error_after_all_results_collected_witness:
  "mp_run_processes only_second_errors slow_then_failing (PInt 2) =
     (Raised RuntimeError, slow_then_failing,
      [PoolCreate 2, ApplyAsync 0 \<lparr>func = 5, arg_tuple = []\<rparr>, ApplyAsync 1 \<lparr>func = 6, arg_tuple = []\<rparr>,
       ResultGet 0, ResultGet 1,
       LoggingInfo (call_completed_message ''A done''), LoggingInfo (call_completed_message ''B failed'')])
   \<and> result_get (workers only_second_errors (function_call_list slow_then_failing) ! 0) \<noteq> None
   \<and> result_get (workers only_second_errors (function_call_list slow_then_failing) ! 1) \<noteq> None"
proof -
  have a: "mp_run_processes only_second_errors slow_then_failing (PInt 2) =
     (Raised RuntimeError, slow_then_failing,
      [PoolCreate 2, ApplyAsync 0 \<lparr>func = 5, arg_tuple = []\<rparr>, ApplyAsync 1 \<lparr>func = 6, arg_tuple = []\<rparr>,
       ResultGet 0, ResultGet 1,
       LoggingInfo (call_completed_message ''A done''), LoggingInfo (call_completed_message ''B failed'')])"
    by (simp add: mp_eval slow_then_failing_def only_second_errors_def)
  have l: "length (function_call_list slow_then_failing) = 2" by (simp add: slow_then_failing_def)
  from error_after_all_results_collected[OF a] l
  have "\<forall>i<2. result_get (workers only_second_errors (function_call_list slow_then_failing) ! i) \<noteq> None"
    by simp
  then show ?thesis using a by simp
qed

text \<open>
  Claim C1 fails for the call pool: \<^verbatim>\<open>MultiprocessingPool.run_processes\<close> never empties
  \<^verbatim>\<open>function_call_list\<close>. After a first call was added and run, the queue still holds
  it; after a second call is added, the second run dispatches the first call again.
\<close>

theorem call_pool_queue_not_drained:
  "(case add_function_call MultiprocessingPool_init (FunctionCallObj \<lparr>func = 1, arg_tuple = []\<rparr>) of
      Inl e \<Rightarrow> False
    | Inr s1 \<Rightarrow>
        (case mp_run_processes (\<lambda>i fc. Returns []) s1 (PInt 1) of
           (r1, s2, tr1) \<Rightarrow>
             r1 = Returned \<and> function_call_list s2 = [\<lparr>func = 1, arg_tuple = []\<rparr>]
             \<and> (case add_function_call s2 (FunctionCallObj \<lparr>func = 2, arg_tuple = []\<rparr>) of
                   Inl e \<Rightarrow> False
                 | Inr s3 \<Rightarrow>
                     mp_run_processes (\<lambda>i fc. Returns []) s3 (PInt 1) =
                       (Returned,
                        \<lparr>function_call_list = [\<lparr>func = 1, arg_tuple = []\<rparr>, \<lparr>func = 2, arg_tuple = []\<rparr>]\<rparr>,
                        [PoolCreate 1, ApplyAsync 0 \<lparr>func = 1, arg_tuple = []\<rparr>,
                         ApplyAsync 1 \<lparr>func = 2, arg_tuple = []\<rparr>, ResultGet 0, ResultGet 1, PoolClose]))))"
  by (simp add: mp_eval add_function_call_def MultiprocessingPool_init_def)

text \<open>
  The command scheduler, in contrast, empties its queue in every run whose arguments are
  valid, whatever the outcome.
\<close>

lemma run_processes_drains_queue:
  "args_ok p sh out r \<Longrightarrow> cmd_list (fst (snd (run_processes fuel env sp p sh out r))) = []"
  by (simp add: run_processes_args_ok split: prod.splits)

section \<open>The scheduling loop\<close>

lemma pending_Exits:
  "pending_ok env Rn t \<Longrightarrow> \<exists>d rc ob. env (tid t) (retries t) = Exits d rc ob"
  by (cases "attempts_left Rn t") (auto simp: pending_ok_def attempts_left_def split: proc_behaviour.splits)

lemma attempts_left_Suc: "retries t \<le> Rn \<Longrightarrow> attempts_left Rn t = Suc (Rn - retries t)"
  by (simp add: attempts_left_def Suc_diff_le)

lemma start_processes_ok:
  assumes "list_all (pending_ok env Rn) to_run" "list_all (running_ok env Rn) running"
  shows "\<exists>to_run1 running1 tr1.
           start_processes env P sh out to_run running = (Inr (to_run1, running1), tr1)
           \<and> list_all (pending_ok env Rn) to_run1 \<and> list_all (running_ok env Rn) running1
           \<and> sum_list (map (pending_work env Rn) to_run1) + sum_list (map (running_work env Rn) running1)
               = sum_list (map (pending_work env Rn) to_run) + sum_list (map (running_work env Rn) running)
           \<and> (list_all (surv env Rn) (to_run1 @ running1) \<longleftrightarrow> list_all (surv env Rn) (to_run @ running))
           \<and> (1 \<le> P \<and> (to_run \<noteq> [] \<or> running \<noteq> []) \<longrightarrow> running1 \<noteq> [])"
  using assms
proof (induction env P sh out to_run running rule: start_processes.induct)
  case (1 env P sh out to_run running)
  show ?case
  proof (cases "int (length running) < P \<and> to_run \<noteq> []")
    case False
    then have "1 \<le> P \<and> (to_run \<noteq> [] \<or> running \<noteq> []) \<longrightarrow> running \<noteq> []" by auto
    with False "1.prems" show ?thesis by (simp add: start_processes_stop)
  next
    case True
    then have c: "int (length running) < P \<and> 0 < length to_run" by simp
    let ?t = "last to_run"
    let ?t' = "?t\<lparr>popen := Some \<lparr>timeouts = 0, returncode = None\<rparr>\<rparr>"
    from True have tr: "to_run = butlast to_run @ [?t]" by simp
    from "1.prems"(1) have "list_all (pending_ok env Rn) (butlast to_run @ [?t])"
      using tr by simp
    then have pt: "pending_ok env Rn ?t" and pb: "list_all (pending_ok env Rn) (butlast to_run)"
      by simp_all
    from pending_Exits[OF pt] obtain d rc ob where ex: "env (tid ?t) (retries ?t) = Exits d rc ob" by blast
    have rt: "running_ok env Rn ?t'"
      using pt ex by (simp add: running_ok_def pending_ok_def attempts_left_def)
    from rt "1.prems"(2) have pr: "list_all (running_ok env Rn) (running @ [?t'])" by simp
    from "1.IH"(1)[OF c refl refl ex pb pr] obtain to_run1 running1 tr1 where
      s: "start_processes env P sh out (butlast to_run) (running @ [?t']) = (Inr (to_run1, running1), tr1)"
      and p1: "list_all (pending_ok env Rn) to_run1" and r1: "list_all (running_ok env Rn) running1"
      and w: "sum_list (map (pending_work env Rn) to_run1) + sum_list (map (running_work env Rn) running1)
               = sum_list (map (pending_work env Rn) (butlast to_run))
                 + sum_list (map (running_work env Rn) (running @ [?t']))"
      and sv: "list_all (surv env Rn) (to_run1 @ running1) \<longleftrightarrow> list_all (surv env Rn) (butlast to_run @ running @ [?t'])"
      and ne: "1 \<le> P \<and> (butlast to_run \<noteq> [] \<or> running @ [?t'] \<noteq> []) \<longrightarrow> running1 \<noteq> []"
      by blast
    have w': "running_work env Rn ?t' = pending_work env Rn ?t"
      by (simp add: running_work_def pending_work_def timeouts_of_def attempts_left_def)
    have "sum_list (map (pending_work env Rn) to_run)
            = sum_list (map (pending_work env Rn) (butlast to_run)) + pending_work env Rn ?t"
      by (subst tr) simp
    with w w' have w2: "sum_list (map (pending_work env Rn) to_run1) + sum_list (map (running_work env Rn) running1)
               = sum_list (map (pending_work env Rn) to_run) + sum_list (map (running_work env Rn) running)"
      by simp
    have sv': "surv env Rn ?t' = surv env Rn ?t" by (simp add: surv_def attempts_left_def)
    have "list_all (surv env Rn) (to_run @ running)
            \<longleftrightarrow> list_all (surv env Rn) (butlast to_run) \<and> surv env Rn ?t \<and> list_all (surv env Rn) running"
      by (subst tr) auto
    with sv sv' have sv2: "list_all (surv env Rn) (to_run1 @ running1) \<longleftrightarrow> list_all (surv env Rn) (to_run @ running)"
      by auto
    from c have "0 < P" by linarith
    with ne have ne2: "running1 \<noteq> []" by simp
    from True ex s have "start_processes env P sh out to_run running
           = (Inr (to_run1, running1),
              Popen (tid ?t) (retries ?t) (popen_args sh (cmd ?t)) sh out # tr1)"
      by (simp add: start_processes_step)
    with p1 r1 w2 sv2 ne2 show ?thesis by blast
  qed
qed

lemma running_ok_cases:
  assumes "running_ok env Rn t"
  obtains p d rc ob where "popen t = Some p" "env (tid t) (retries t) = Exits d rc ob"
    "timeouts p \<le> d" "pending_ok env Rn t"
proof -
  from assms have pk: "pending_ok env Rn t" by (simp add: running_ok_def)
  from pending_Exits[OF pk] obtain d rc ob where e: "env (tid t) (retries t) = Exits d rc ob" by blast
  from assms e obtain p where "popen t = Some p" "timeouts p \<le> d"
    by (auto simp: running_ok_def split: option.splits)
  with e pk that show ?thesis by blast
qed

lemma pending_work_eq:
  "pending_ok env Rn t \<Longrightarrow> env (tid t) (retries t) = Exits d rc ob \<Longrightarrow>
     pending_work env Rn t = Suc d + after_work env Rn t"
  by (simp add: pending_ok_def pending_work_def after_work_def attempts_left_Suc)

lemma poll_running_ok:
  assumes "list_all (running_ok env Rn) running"
  shows "\<exists>still completed tr2.
           poll_running env out running = (Inr (still, completed), tr2)
           \<and> list_all (running_ok env Rn) still \<and> list_all (done_ok env Rn out) completed
           \<and> sum_list (map (running_work env Rn) still) + sum_list (map (after_work env Rn) completed)
                + length running \<le> sum_list (map (running_work env Rn) running)
           \<and> (list_all (surv env Rn) (still @ completed) \<longleftrightarrow> list_all (surv env Rn) running)"
  using assms
proof (induction running)
  case Nil
  then show ?case by simp
next
  case (Cons t rest)
  from Cons.prems have rt: "running_ok env Rn t" and rr: "list_all (running_ok env Rn) rest" by simp_all
  from Cons.IH[OF rr] obtain still completed tr2 where
    p: "poll_running env out rest = (Inr (still, completed), tr2)"
    and s: "list_all (running_ok env Rn) still" and c: "list_all (done_ok env Rn out) completed"
    and w: "sum_list (map (running_work env Rn) still) + sum_list (map (after_work env Rn) completed)
                + length rest \<le> sum_list (map (running_work env Rn) rest)"
    and sv: "list_all (surv env Rn) (still @ completed) \<longleftrightarrow> list_all (surv env Rn) rest"
    by blast
  from rt obtain p0 d rc ob where po: "popen t = Some p0" and e: "env (tid t) (retries t) = Exits d rc ob"
    and le: "timeouts p0 \<le> d" and pk: "pending_ok env Rn t"
    by (rule running_ok_cases)
  have rw: "running_work env Rn t = Suc d + after_work env Rn t - timeouts p0"
    using pending_work_eq[OF pk e] po by (simp add: running_work_def timeouts_of_def)
  show ?case
  proof (cases "d \<le> timeouts p0")
    case True
    let ?done = "t\<lparr>popen := Some (p0\<lparr>returncode := Some rc\<rparr>),
                    stdout_bytes := Some (if out then Bytes ob else NoData)\<rparr>"
    have d1: "done_ok env Rn out ?done"
      using pk e by (simp add: done_ok_def pending_ok_def attempts_left_def)
    have d2: "after_work env Rn ?done = after_work env Rn t" using e by (simp add: after_work_def)
    have d3: "surv env Rn ?done = surv env Rn t" by (simp add: surv_def attempts_left_def)
    from True le have "timeouts p0 = d" by simp
    with rw have d4: "after_work env Rn t + 1 = running_work env Rn t" by simp
    from True po e p have "poll_running env out (t # rest)
        = (Inr (still, ?done # completed), Communicate (tid t) (retries t) True # tr2)"
      by simp
    moreover have "list_all (done_ok env Rn out) (?done # completed)" using d1 c by simp
    moreover have "sum_list (map (running_work env Rn) still)
                    + sum_list (map (after_work env Rn) (?done # completed)) + length (t # rest)
                   \<le> sum_list (map (running_work env Rn) (t # rest))"
      using w d2 d4 by simp
    moreover have "list_all (surv env Rn) (still @ ?done # completed) \<longleftrightarrow> list_all (surv env Rn) (t # rest)"
      using sv d3 by auto
    ultimately show ?thesis using s by blast
  next
    case False
    let ?wait = "t\<lparr>popen := Some (p0\<lparr>timeouts := Suc (timeouts p0)\<rparr>)\<rparr>"
    have w1: "running_ok env Rn ?wait"
      using pk e False by (simp add: running_ok_def pending_ok_def attempts_left_def)
    have w2: "running_work env Rn ?wait + 1 = running_work env Rn t"
      using rw False pending_work_eq[OF pk e]
      by (simp add: running_work_def timeouts_of_def pending_work_def attempts_left_def)
    have w3: "surv env Rn ?wait = surv env Rn t" by (simp add: surv_def attempts_left_def)
    from False po e p have "poll_running env out (t # rest)
        = (Inr (?wait # still, completed), Communicate (tid t) (retries t) False # tr2)"
      by simp
    moreover have "list_all (running_ok env Rn) (?wait # still)" using w1 s by simp
    moreover have "sum_list (map (running_work env Rn) (?wait # still))
                    + sum_list (map (after_work env Rn) completed) + length (t # rest)
                   \<le> sum_list (map (running_work env Rn) (t # rest))"
      using w w2 by simp
    moreover have "list_all (surv env Rn) ((?wait # still) @ completed) \<longleftrightarrow> list_all (surv env Rn) (t # rest)"
      using sv w3 by auto
    ultimately show ?thesis using c by blast
  qed
qed

lemma done_ok_cases:
  assumes "done_ok env Rn out t"
  obtains p d rc ob where "popen t = Some p" "env (tid t) (retries t) = Exits d rc ob"
    "returncode p = Some rc" "stdout_bytes t = Some (if out then Bytes ob else NoData)"
    "pending_ok env Rn t"
  using assms
  by (auto simp: done_ok_def split: option.splits proc_behaviour.splits)

lemma fatal_not_surv: "fatal env Rn t \<Longrightarrow> \<not> surv env Rn t"
  by (auto simp: fatal_def surv_def attempts_left_def split: proc_behaviour.splits)

lemma get_std_out_bytes:
  "stdout_bytes t = Some (Bytes ob) \<Longrightarrow> \<exists>s. get_std_out_from_tracker t = Inr s"
  by (cases ob) (simp_all add: get_std_out_from_tracker_def)

lemma get_std_out_nodata:
  "stdout_bytes t = Some NoData \<Longrightarrow> get_std_out_from_tracker t = Inl AttributeError"
  by (simp add: get_std_out_from_tracker_def)

lemma check_completed_ok:
  assumes "list_all (done_ok env Rn out) completed" "list_all (pending_ok env Rn) to_run1"
  shows "if list_ex (fatal env Rn) completed
         then \<exists>tr3. check_completed (int Rn) out completed to_run1
                       = (Inl (if out then RuntimeError else AttributeError), tr3)
         else \<exists>to_run2 tr3.
                check_completed (int Rn) out completed to_run1 = (Inr to_run2, tr3)
                \<and> list_all (pending_ok env Rn) to_run2
                \<and> sum_list (map (pending_work env Rn) to_run2)
                    = sum_list (map (pending_work env Rn) to_run1)
                      + sum_list (map (after_work env Rn) completed)
                \<and> (list_all (surv env Rn) to_run2
                     \<longleftrightarrow> list_all (surv env Rn) to_run1 \<and> list_all (surv env Rn) completed)"
  using assms
proof (induction completed arbitrary: to_run1)
  case Nil
  then show ?case by simp
next
  case (Cons t rest)
  from Cons.prems have dt: "done_ok env Rn out t" and dr: "list_all (done_ok env Rn out) rest" by simp_all
  from dt obtain p d rc ob where po: "popen t = Some p" and e: "env (tid t) (retries t) = Exits d rc ob"
    and rcp: "returncode p = Some rc" and so: "stdout_bytes t = Some (if out then Bytes ob else NoData)"
    and pk: "pending_ok env Rn t"
    by (rule done_ok_cases)
  from pk have le: "retries t \<le> Rn" by (simp add: pending_ok_def)
  from pk have "ends env (tid t) (retries t) (attempts_left Rn t)" by (simp add: pending_ok_def)
  with le have en: "ends env (tid t) (retries t) (Suc (Rn - retries t))" by (simp add: attempts_left_Suc)
  show ?case
  proof (cases "rc = 0")
    case True
    then have nf: "\<not> fatal env Rn t" using e by (simp add: fatal_def)
    from True e have aw: "after_work env Rn t = 0" by (simp add: after_work_def)
    from True e le have st: "surv env Rn t" by (simp add: surv_def attempts_left_Suc)
    have step: "\<exists>pre. \<forall>r tr. check_completed (int Rn) out rest to_run1 = (r, tr) \<longrightarrow>
                  check_completed (int Rn) out (t # rest) to_run1 = (r, pre @ tr)"
    proof (cases out)
      case True
      with so obtain s where "get_std_out_from_tracker t = Inr s" using get_std_out_bytes by auto
      with True \<open>rc = 0\<close> po rcp show ?thesis
        by (intro exI[of _ "[LoggingInfo ('' - subprocess completed - '' @ s)]"]) simp
    next
      case False
      with \<open>rc = 0\<close> po rcp show ?thesis by (intro exI[of _ "[]"]) simp
    qed
    then obtain pre where step': "\<And>r tr. check_completed (int Rn) out rest to_run1 = (r, tr) \<Longrightarrow>
                  check_completed (int Rn) out (t # rest) to_run1 = (r, pre @ tr)" by blast
    show ?thesis
    proof (cases "list_ex (fatal env Rn) rest")
      case True
      with Cons.IH[OF dr Cons.prems(2)] obtain tr3 where
        "check_completed (int Rn) out rest to_run1 = (Inl (if out then RuntimeError else AttributeError), tr3)"
        by auto
      from step'[OF this] True show ?thesis by auto
    next
      case False
      with Cons.IH[OF dr Cons.prems(2)] obtain to_run2 tr3 where
        c: "check_completed (int Rn) out rest to_run1 = (Inr to_run2, tr3)"
        and rest: "list_all (pending_ok env Rn) to_run2"
          "sum_list (map (pending_work env Rn) to_run2)
                    = sum_list (map (pending_work env Rn) to_run1)
                      + sum_list (map (after_work env Rn) rest)"
          "list_all (surv env Rn) to_run2
                     \<longleftrightarrow> list_all (surv env Rn) to_run1 \<and> list_all (surv env Rn) rest"
        by auto
      from step'[OF c] rest nf False aw st show ?thesis by auto
    qed
  next
    case False
    then have rn: "returncode p \<noteq> Some 0" using rcp by simp
    show ?thesis
    proof (cases "retries t = Rn")
      case True
      with False e have f: "fatal env Rn t" by (simp add: fatal_def)
      have "\<exists>tr3. check_completed (int Rn) out (t # rest) to_run1
                       = (Inl (if out then RuntimeError else AttributeError), tr3)"
      proof (cases out)
        case True
        with so obtain s where "get_std_out_from_tracker t = Inr s" using get_std_out_bytes by auto
        with True \<open>retries t = Rn\<close> po rn show ?thesis by simp
      next
        case False
        with so have "get_std_out_from_tracker t = Inl AttributeError" using get_std_out_nodata by simp
        with False \<open>retries t = Rn\<close> po rn show ?thesis by simp
      qed
      with f show ?thesis by simp
    next
      case False
      with le have lt: "retries t < Rn" by simp
      from False \<open>rc \<noteq> 0\<close> e have nf: "\<not> fatal env Rn t" by (simp add: fatal_def)
      let ?t' = "t\<lparr>retries := retries t + 1, popen := None\<rparr>"
      have l': "attempts_left Rn ?t' = Rn - retries t" by (simp add: attempts_left_def)
      from en e \<open>rc \<noteq> 0\<close> have "ends env (tid t) (Suc (retries t)) (Rn - retries t)" by simp
      with lt l' have pk': "pending_ok env Rn ?t'" by (simp add: pending_ok_def)
      have pw': "pending_work env Rn ?t' = after_work env Rn t"
        using e \<open>rc \<noteq> 0\<close> l' by (simp add: pending_work_def after_work_def)
      have sv': "surv env Rn ?t' = surv env Rn t"
        using e \<open>rc \<noteq> 0\<close> l' le by (simp add: surv_def attempts_left_Suc)
      from pk' Cons.prems(2) have p2: "list_all (pending_ok env Rn) (to_run1 @ [?t'])" by simp
      have step: "check_completed (int Rn) out (t # rest) to_run1
                    = check_completed (int Rn) out rest (to_run1 @ [?t'])"
        using po rn False by simp
      show ?thesis
      proof (cases "list_ex (fatal env Rn) rest")
        case True
        with Cons.IH[OF dr p2] step show ?thesis by auto
      next
        case False
        with Cons.IH[OF dr p2] obtain to_run2 tr3 where
          c: "check_completed (int Rn) out rest (to_run1 @ [?t']) = (Inr to_run2, tr3)"
          and rest: "list_all (pending_ok env Rn) to_run2"
            "sum_list (map (pending_work env Rn) to_run2)
                    = sum_list (map (pending_work env Rn) (to_run1 @ [?t']))
                      + sum_list (map (after_work env Rn) rest)"
            "list_all (surv env Rn) to_run2
                     \<longleftrightarrow> list_all (surv env Rn) (to_run1 @ [?t']) \<and> list_all (surv env Rn) rest"
          by auto
        from c step rest nf False pw' sv' show ?thesis by auto
      qed
    qed
  qed
qed

lemma run_loop_empty: "run_loop fuel env P sh out R [] [] = (Returned, [])"
  by (simp add: run_loop.simps)

lemma run_loop_0:
  "to_run \<noteq> [] \<or> running \<noteq> [] \<Longrightarrow> run_loop 0 env P sh out R to_run running = (Unfinished, [])"
  by (subst run_loop.simps) auto

lemma run_loop_Suc:
  "to_run \<noteq> [] \<or> running \<noteq> [] \<Longrightarrow>
   run_loop (Suc n) env P sh out R to_run running =
     (case start_processes env P sh out to_run running of
        (Inl e, tr1) \<Rightarrow> (Raised e, tr1)
      | (Inr (to_run1, running1), tr1) \<Rightarrow>
          (case poll_running env out running1 of
             (Inl e, tr2) \<Rightarrow> (Raised e, tr1 @ tr2)
           | (Inr (still_running, completed), tr2) \<Rightarrow>
               (case check_completed R out completed to_run1 of
                  (Inl e, tr3) \<Rightarrow> (Raised e, tr1 @ tr2 @ tr3)
                | (Inr to_run2, tr3) \<Rightarrow>
                    (case run_loop n env P sh out R to_run2 still_running of
                       (r, tr4) \<Rightarrow> (r, tr1 @ tr2 @ tr3 @ tr4)))))"
  by (subst run_loop.simps) auto

lemma list_ex_fatal_not_surv:
  "list_ex (fatal env Rn) xs \<Longrightarrow> \<not> list_all (surv env Rn) xs"
  by (induction xs) (auto dest: fatal_not_surv)

lemma run_loop_finishes:
  assumes "1 \<le> P"
    and "list_all (pending_ok env Rn) to_run" and "list_all (running_ok env Rn) running"
    and "sum_list (map (pending_work env Rn) to_run) + sum_list (map (running_work env Rn) running) \<le> n"
  shows "\<exists>tr. run_loop n env P sh out (int Rn) to_run running =
           (if list_all (surv env Rn) (to_run @ running) then Returned
            else Raised (if out then RuntimeError else AttributeError), tr)"
  using assms(2-)
proof (induction n arbitrary: to_run running)
  case 0
  show ?case
  proof (cases "to_run = [] \<and> running = []")
    case True
    then show ?thesis by (simp add: run_loop_empty)
  next
    case False
    from start_processes_ok[OF "0.prems"(1,2), of P sh out] obtain to_run1 running1 tr1 where
      w1: "sum_list (map (pending_work env Rn) to_run1) + sum_list (map (running_work env Rn) running1)
               = sum_list (map (pending_work env Rn) to_run) + sum_list (map (running_work env Rn) running)"
      and r1: "list_all (running_ok env Rn) running1"
      and ne: "1 \<le> P \<and> (to_run \<noteq> [] \<or> running \<noteq> []) \<longrightarrow> running1 \<noteq> []"
      by blast
    from poll_running_ok[OF r1, of out] have "length running1 \<le> sum_list (map (running_work env Rn) running1)"
      by auto
    moreover from ne False assms(1) have "running1 \<noteq> []" by auto
    ultimately have "0 < sum_list (map (running_work env Rn) running1)"
      by (cases running1) auto
    with w1 "0.prems"(3) show ?thesis by simp
  qed
next
  case (Suc n)
  show ?case
  proof (cases "to_run = [] \<and> running = []")
    case True
    then show ?thesis by (simp add: run_loop_empty)
  next
    case False
    then have ne0: "to_run \<noteq> [] \<or> running \<noteq> []" by simp
    from start_processes_ok[OF Suc.prems(1,2), of P sh out] obtain to_run1 running1 tr1 where
      s: "start_processes env P sh out to_run running = (Inr (to_run1, running1), tr1)"
      and p1: "list_all (pending_ok env Rn) to_run1" and r1: "list_all (running_ok env Rn) running1"
      and w1: "sum_list (map (pending_work env Rn) to_run1) + sum_list (map (running_work env Rn) running1)
               = sum_list (map (pending_work env Rn) to_run) + sum_list (map (running_work env Rn) running)"
      and sv1: "list_all (surv env Rn) (to_run1 @ running1) \<longleftrightarrow> list_all (surv env Rn) (to_run @ running)"
      and ne: "1 \<le> P \<and> (to_run \<noteq> [] \<or> running \<noteq> []) \<longrightarrow> running1 \<noteq> []"
      by blast
    from ne ne0 assms(1) have ne1: "0 < length running1" by auto
    from poll_running_ok[OF r1, of out] obtain still completed tr2 where
      p: "poll_running env out running1 = (Inr (still, completed), tr2)"
      and r2: "list_all (running_ok env Rn) still" and d2: "list_all (done_ok env Rn out) completed"
      and w2: "sum_list (map (running_work env Rn) still) + sum_list (map (after_work env Rn) completed)
                + length running1 \<le> sum_list (map (running_work env Rn) running1)"
      and sv2: "list_all (surv env Rn) (still @ completed) \<longleftrightarrow> list_all (surv env Rn) running1"
      by blast
    show ?thesis
    proof (cases "list_ex (fatal env Rn) completed")
      case True
      with check_completed_ok[OF d2 p1] obtain tr3 where
        c: "check_completed (int Rn) out completed to_run1
              = (Inl (if out then RuntimeError else AttributeError), tr3)"
        by auto
      from True have "\<not> list_all (surv env Rn) completed" by (rule list_ex_fatal_not_surv)
      with sv2 sv1 have "\<not> list_all (surv env Rn) (to_run @ running)" by auto
      moreover from s p c ne0 have "run_loop (Suc n) env P sh out (int Rn) to_run running
          = (Raised (if out then RuntimeError else AttributeError), tr1 @ tr2 @ tr3)"
        by (simp add: run_loop_Suc)
      ultimately show ?thesis by simp
    next
      case False
      with check_completed_ok[OF d2 p1] obtain to_run2 tr3 where
        c: "check_completed (int Rn) out completed to_run1 = (Inr to_run2, tr3)"
        and p3: "list_all (pending_ok env Rn) to_run2"
        and w3: "sum_list (map (pending_work env Rn) to_run2)
                    = sum_list (map (pending_work env Rn) to_run1)
                      + sum_list (map (after_work env Rn) completed)"
        and sv3: "list_all (surv env Rn) to_run2
                     \<longleftrightarrow> list_all (surv env Rn) to_run1 \<and> list_all (surv env Rn) completed"
        by auto
      from w1 w2 w3 ne1 Suc.prems(3)
      have "sum_list (map (pending_work env Rn) to_run2) + sum_list (map (running_work env Rn) still) \<le> n"
        by linarith
      from Suc.IH[OF p3 r2 this] obtain tr4 where
        l: "run_loop n env P sh out (int Rn) to_run2 still =
           (if list_all (surv env Rn) (to_run2 @ still) then Returned
            else Raised (if out then RuntimeError else AttributeError), tr4)" by blast
      from sv1 sv2 sv3 have "list_all (surv env Rn) (to_run2 @ still) \<longleftrightarrow> list_all (surv env Rn) (to_run @ running)"
        by auto
      with l s p c ne0 show ?thesis by (simp add: run_loop_Suc)
    qed
  qed
qed

lemma run_loop_fuel_mono:
  "run_loop n env P sh out R to_run running = (res, tr) \<Longrightarrow> res \<noteq> Unfinished \<Longrightarrow>
     run_loop (Suc n) env P sh out R to_run running = (res, tr)"
proof (induction n arbitrary: to_run running res tr)
  case 0
  then show ?case
    by (cases "to_run = [] \<and> running = []") (auto simp: run_loop_empty run_loop_0)
next
  case (Suc n)
  show ?case
  proof (cases "to_run = [] \<and> running = []")
    case True
    with Suc.prems show ?thesis by (simp add: run_loop_empty)
  next
    case False
    then have ne0: "to_run \<noteq> [] \<or> running \<noteq> []" by simp
    from Suc.prems(1) show ?thesis
      apply (subst run_loop_Suc[OF ne0])
      apply (subst (asm) run_loop_Suc[OF ne0])
      apply (auto split: prod.splits sum.splits dest!: Suc.IH[OF _ Suc.prems(2)])
      done
  qed
qed

lemma run_loop_fuel_mono_le:
  "n \<le> m \<Longrightarrow> run_loop n env P sh out R to_run running = (res, tr) \<Longrightarrow> res \<noteq> Unfinished \<Longrightarrow>
     run_loop m env P sh out R to_run running = (res, tr)"
  by (induction m) (auto simp: le_Suc_eq dest: run_loop_fuel_mono)

lemma run_loop_outcome_unique:
  assumes "run_loop n env P sh out R to_run running = (res, tr)" "res \<noteq> Unfinished"
  shows "fst (run_loop m env P sh out R to_run running) = Unfinished
         \<or> run_loop m env P sh out R to_run running = (res, tr)"
proof (cases "n \<le> m")
  case True
  from run_loop_fuel_mono_le[OF True assms] show ?thesis by simp
next
  case False
  then have le: "m \<le> n" by simp
  obtain res' tr' where m: "run_loop m env P sh out R to_run running = (res', tr')"
    by (cases "run_loop m env P sh out R to_run running")
  show ?thesis
  proof (cases "res' = Unfinished")
    case True
    with m show ?thesis by simp
  next
    case False
    from run_loop_fuel_mono_le[OF le m False] assms(1) m show ?thesis by simp
  qed
qed

lemma survives_ends: "survives env i a n \<Longrightarrow> ends env i a n"
  by (induction n arbitrary: a) (auto split: proc_behaviour.splits)

lemma attempts_tail:
  assumes "\<forall>b. a \<le> b \<and> b < Rn \<longrightarrow> (\<exists>d rc ob. env i b = Exits d rc ob \<and> rc \<noteq> 0)"
    and "env i Rn = Exits d rc ob" and "a \<le> Rn" and "k = Rn - a"
  shows "ends env i a (Suc k) \<and> (survives env i a (Suc k) \<longleftrightarrow> rc = 0)"
  using assms
proof (induction k arbitrary: a)
  case 0
  then have "a = Rn" by simp
  with "0.prems"(2) show ?case by simp
next
  case (Suc k)
  then have lt: "a < Rn" by simp
  with Suc.prems(1) obtain d' rc' ob' where e: "env i a = Exits d' rc' ob'" and nz: "rc' \<noteq> 0"
    by (metis order_refl)
  from Suc.prems(1) have "\<forall>b. Suc a \<le> b \<and> b < Rn \<longrightarrow> (\<exists>d rc ob. env i b = Exits d rc ob \<and> rc \<noteq> 0)"
    by auto
  moreover have "Suc a \<le> Rn" using lt by simp
  moreover have "k = Rn - Suc a" using Suc.prems(4) by simp
  ultimately have "ends env i (Suc a) (Suc k) \<and> (survives env i (Suc a) (Suc k) \<longleftrightarrow> rc = 0)"
    using Suc.IH Suc.prems(2) by blast
  with e nz show ?case by simp
qed

text \<open>
  Claim C4. Let the arguments of the run be valid, with retry budget \<open>R\<close>, let the first
  \<open>R\<close> attempts of one command exit non-zero and its attempt number \<open>R + 1\<close> exit with
  status \<open>rc\<close>, and let every other command of the batch exit with status zero within its
  budget. Then the run finishes: it returns without an error when \<open>rc\<close> is zero, and it
  raises when \<open>rc\<close> is non-zero (the \<^verbatim>\<open>RuntimeError\<close> of the scheduler when the output
  is captured; without captured output the attempt to read it raises \<^verbatim>\<open>AttributeError\<close>
  first). In both cases the queue is empty afterwards, and however many rounds of the loop
  are observed, the run is either still going or has ended in exactly this way. So the
  attempt number \<open>R + 1\<close> is the last chance.
\<close>

theorem retry_budget_is_exact:
  assumes "args_ok p sh out r"
    and "i < length (cmd_list sp)"
    and "\<forall>j < length (cmd_list sp). j \<noteq> i \<longrightarrow> survives env j 0 (Suc (nat (int_of r)))"
    and "\<forall>a < nat (int_of r). \<exists>d rc ob. env i a = Exits d rc ob \<and> rc \<noteq> 0"
    and "env i (nat (int_of r)) = Exits d rc ob"
  shows "\<exists>fuel tr.
           run_processes fuel env sp p sh out r =
             (if rc = 0 then Returned else Raised (if truthy out then RuntimeError else AttributeError),
              sp\<lparr>cmd_list := []\<rparr>, tr)
           \<and> (\<forall>fuel'. fst (run_processes fuel' env sp p sh out r) = Unfinished
                      \<or> run_processes fuel' env sp p sh out r = run_processes fuel env sp p sh out r)"
proof -
  define Rn where "Rn = nat (int_of r)"
  define to_run where "to_run = map (\<lambda>(i, c). CMDTracker i c) (enumerate 0 (cmd_list sp))"
  from assms(1) have R: "int Rn = int_of r" and P: "1 \<le> int_of p"
    by (simp_all add: args_ok_def Rn_def)
  have mine: "ends env i 0 (Suc Rn) \<and> (survives env i 0 (Suc Rn) \<longleftrightarrow> rc = 0)"
    using attempts_tail[of 0 Rn env i d rc ob Rn] assms(4,5) by (simp add: Rn_def)
  have each: "pending_ok env Rn t \<and> (surv env Rn t \<longleftrightarrow> (tid t = i \<longrightarrow> rc = 0))" if "t \<in> set to_run" for t
  proof -
    from that obtain j c where t: "t = CMDTracker j c" and j: "j < length (cmd_list sp)"
      by (auto simp: to_run_def in_set_enumerate_eq)
    show ?thesis
    proof (cases "j = i")
      case True
      with t mine show ?thesis
        by (simp add: pending_ok_def surv_def attempts_left_def CMDTracker_def)
    next
      case False
      with assms(3) j have s: "survives env j 0 (Suc Rn)" by (simp add: Rn_def)
      with survives_ends[OF s] t False show ?thesis
        by (simp add: pending_ok_def surv_def attempts_left_def CMDTracker_def)
    qed
  qed
  then have pk: "list_all (pending_ok env Rn) to_run" by (simp add: list_all_iff)
  have mem: "CMDTracker i (cmd_list sp ! i) \<in> set to_run"
    using assms(2) by (force simp: to_run_def in_set_enumerate_eq)
  have "rc = 0" if "list_all (surv env Rn) to_run"
  proof -
    from that mem have "surv env Rn (CMDTracker i (cmd_list sp ! i))" by (simp add: list_all_iff)
    with each[OF mem] show ?thesis by (simp add: CMDTracker_def)
  qed
  moreover have "list_all (surv env Rn) to_run" if "rc = 0"
    using each that by (simp add: list_all_iff)
  ultimately have sv: "list_all (surv env Rn) (to_run @ []) \<longleftrightarrow> rc = 0" by auto
  define n where "n = sum_list (map (pending_work env Rn) to_run) + sum_list (map (running_work env Rn) [])"
  from run_loop_finishes[OF P pk, of "[]" n "truthy sh" "truthy out"] obtain tr where
    l: "run_loop n env (int_of p) (truthy sh) (truthy out) (int Rn) to_run [] =
           (if rc = 0 then Returned else Raised (if truthy out then RuntimeError else AttributeError), tr)"
    using sv by (auto simp: n_def)
  have nu: "(if rc = 0 then Returned else Raised (if truthy out then RuntimeError else AttributeError)) \<noteq> Unfinished"
    by simp
  have run: "run_processes fuel env sp p sh out r =
               (case run_loop fuel env (int_of p) (truthy sh) (truthy out) (int Rn) to_run [] of
                  (res, tr) \<Rightarrow> (res, sp\<lparr>cmd_list := []\<rparr>, tr))" for fuel
    using assms(1) by (simp add: run_processes_args_ok to_run_def R)
  have "fst (run_processes fuel' env sp p sh out r) = Unfinished
          \<or> run_processes fuel' env sp p sh out r = run_processes n env sp p sh out r" for fuel'
    using run_loop_outcome_unique[OF l nu, of fuel'] l
    by (auto simp: run split: prod.splits)
  moreover have "run_processes n env sp p sh out r =
             (if rc = 0 then Returned else Raised (if truthy out then RuntimeError else AttributeError),
              sp\<lparr>cmd_list := []\<rparr>, tr)"
    using l by (simp add: run)
  ultimately show ?thesis by blast
qed

theorem retry_budget_is_exact_witness:
  "(\<exists>fuel tr.
      run_processes fuel fails_twice_then_ok two_commands (PInt 1) (PBool False) (PBool True) (PInt 2)
        = (Returned, two_commands\<lparr>cmd_list := []\<rparr>, tr)
      \<and> (\<forall>fuel'. fst (run_processes fuel' fails_twice_then_ok two_commands (PInt 1) (PBool False)
                          (PBool True) (PInt 2)) = Unfinished
              \<or> run_processes fuel' fails_twice_then_ok two_commands (PInt 1) (PBool False) (PBool True) (PInt 2)
                = run_processes fuel fails_twice_then_ok two_commands (PInt 1) (PBool False) (PBool True) (PInt 2)))
   \<and> (\<exists>fuel tr.
      run_processes fuel fails_three_times two_commands (PInt 1) (PBool False) (PBool True) (PInt 2)
        = (Raised RuntimeError, two_commands\<lparr>cmd_list := []\<rparr>, tr)
      \<and> (\<forall>fuel'. fst (run_processes fuel' fails_three_times two_commands (PInt 1) (PBool False)
                          (PBool True) (PInt 2)) = Unfinished
              \<or> run_processes fuel' fails_three_times two_commands (PInt 1) (PBool False) (PBool True) (PInt 2)
                = run_processes fuel fails_three_times two_commands (PInt 1) (PBool False) (PBool True) (PInt 2)))"
proof -
  have a: "args_ok (PInt 1) (PBool False) (PBool True) (PInt 2)" by (simp add: args_ok_def)
  have i: "0 < length (cmd_list two_commands)" by (simp add: two_commands_def)
  have o1: "\<forall>j < length (cmd_list two_commands). j \<noteq> 0 \<longrightarrow>
              survives fails_twice_then_ok j 0 (Suc (nat (int_of (PInt 2))))"
    by (auto simp: two_commands_def fails_twice_then_ok_def eval_nat_numeral less_Suc_eq)
  have o2: "\<forall>j < length (cmd_list two_commands). j \<noteq> 0 \<longrightarrow>
              survives fails_three_times j 0 (Suc (nat (int_of (PInt 2))))"
    by (auto simp: two_commands_def fails_three_times_def eval_nat_numeral less_Suc_eq)
  have f1: "\<forall>a < nat (int_of (PInt 2)). \<exists>d rc ob. fails_twice_then_ok 0 a = Exits d rc ob \<and> rc \<noteq> 0"
    by (simp add: fails_twice_then_ok_def)
  have f2: "\<forall>a < nat (int_of (PInt 2)). \<exists>d rc ob. fails_three_times 0 a = Exits d rc ob \<and> rc \<noteq> 0"
    by (simp add: fails_three_times_def)
  have e1: "fails_twice_then_ok 0 (nat (int_of (PInt 2))) = Exits 0 0 (Some ''built'')"
    by (simp add: fails_twice_then_ok_def)
  have e2: "fails_three_times 0 (nat (int_of (PInt 2))) = Exits 1 1 (Some ''error'')"
    by (simp add: fails_three_times_def)
  show ?thesis
    using retry_budget_is_exact[OF a i o1 f1 e1] retry_budget_is_exact[OF a i o2 f2 e2]
    by simp
qed

lemma start_processes_events:
  "start_processes env P sh out to_run running = (res, tr) \<Longrightarrow> ev \<in> set tr \<Longrightarrow>
     \<exists>i a args s c. ev = Popen i a args s c"
proof (induction env P sh out to_run running arbitrary: res tr rule: start_processes.induct)
  case (1 env P sh out to_run running)
  show ?case
  proof (cases "int (length running) < P \<and> to_run \<noteq> []")
    case False
    with "1.prems" show ?thesis by (simp add: start_processes_stop)
  next
    case True
    then have c: "int (length running) < P \<and> 0 < length to_run" by simp
    show ?thesis
    proof (cases "env (tid (last to_run)) (retries (last to_run))")
      case SpawnFails
      with True "1.prems" show ?thesis by (auto simp add: start_processes_step)
    next
      case (Exits d rc ob)
      with True "1.prems" "1.IH"(1)[OF c refl refl Exits] show ?thesis
        by (auto simp add: start_processes_step split: prod.splits)
    next
      case Hangs
      with True "1.prems" "1.IH"(2)[OF c refl refl Hangs] show ?thesis
        by (auto simp add: start_processes_step split: prod.splits)
    qed
  qed
qed

lemma poll_running_events:
  "poll_running env out running = (res, tr) \<Longrightarrow> ev \<in> set tr \<Longrightarrow> \<exists>i a c. ev = Communicate i a c"
  by (induction running arbitrary: res tr)
     (fastforce simp: Let_def split: option.splits prod.splits sum.splits proc_behaviour.splits if_splits)+

lemma check_completed_events:
  "check_completed R out completed to_run = (res, tr) \<Longrightarrow> ev \<in> set tr \<Longrightarrow> \<exists>m. ev = LoggingInfo m"
  by (induction completed arbitrary: to_run res tr)
     (fastforce split: option.splits prod.splits sum.splits if_splits)+

lemma poll_running_completed:
  "poll_running env out running = (Inr (still, completed), tr) \<Longrightarrow>
   Communicate i a True \<in> set tr \<Longrightarrow> env i a = Exits d rc ob \<Longrightarrow>
     \<exists>t \<in> set completed. \<exists>p. popen t = Some p \<and> returncode p = Some rc \<and> retries t = a"
proof (induction running arbitrary: still completed tr)
  case Nil
  then show ?case by simp
next
  case (Cons t rest)
  from Cons.prems(1) obtain p0 where po: "popen t = Some p0" by (auto split: option.splits)
  obtain r' tr' where rest: "poll_running env out rest = (r', tr')" by (cases "poll_running env out rest")
  with Cons.prems(1) po obtain still' completed' where r': "r' = Inr (still', completed')"
    by (cases r') (auto simp: Let_def split: option.splits proc_behaviour.splits if_splits)
  show ?case
  proof (cases "Communicate i a True \<in> set tr'")
    case True
    from Cons.IH[OF rest[unfolded r'] True Cons.prems(3)]
    obtain t' p where "t' \<in> set completed'" "popen t' = Some p \<and> returncode p = Some rc \<and> retries t' = a"
      by blast
    moreover from Cons.prems(1) po rest r' have "set completed' \<subseteq> set completed"
      by (auto simp: Let_def split: option.splits proc_behaviour.splits if_splits)
    ultimately show ?thesis by blast
  next
    case False
    with Cons.prems(1,2) po rest r' have h: "tid t = i" "retries t = a"
      by (auto simp: Let_def split: option.splits proc_behaviour.splits if_splits)
    with Cons.prems(1,2,3) po rest r' False
    have "t\<lparr>popen := Some (p0\<lparr>returncode := Some rc\<rparr>),
            stdout_bytes := Some (if out then Bytes ob else NoData)\<rparr> \<in> set completed"
      by (auto simp: Let_def split: option.splits proc_behaviour.splits if_splits)
    with h show ?thesis by (intro bexI[of _ "t\<lparr>popen := Some (p0\<lparr>returncode := Some rc\<rparr>),
            stdout_bytes := Some (if out then Bytes ob else NoData)\<rparr>"]) auto
  qed
qed

lemma check_completed_fatal:
  "t \<in> set completed \<Longrightarrow> popen t = Some p \<Longrightarrow> returncode p \<noteq> Some 0 \<Longrightarrow> int (retries t) = R \<Longrightarrow>
     \<exists>e tr. check_completed R out completed to_run = (Inl e, tr)"
proof (induction completed arbitrary: to_run)
  case Nil
  then show ?case by simp
next
  case (Cons u rest)
  show ?case
  proof (cases "u = t")
    case True
    with Cons.prems show ?thesis by (auto split: sum.splits)
  next
    case False
    with Cons.prems have "t \<in> set rest" by simp
    from Cons.IH[OF this Cons.prems(2,3,4)]
    have ih: "\<exists>e tr. check_completed R out rest to_run' = (Inl e, tr)" for to_run' by blast
    show ?thesis
    proof (cases "popen u")
      case None
      then show ?thesis by simp
    next
      case (Some q)
      obtain e1 tr1 where 1: "check_completed R out rest to_run = (Inl e1, tr1)" using ih by blast
      obtain e2 tr2 where 2: "check_completed R out rest
                 (to_run @ [u\<lparr>retries := retries u + 1, popen := None\<rparr>]) = (Inl e2, tr2)" using ih by blast
      from Some 1 2 show ?thesis by (auto split: sum.splits)
    qed
  qed
qed

lemma split_after_prefix:
  assumes "pre @ ev # post = xs @ ys" and "ev \<notin> set xs"
  shows "\<exists>m. pre = xs @ m \<and> ys = m @ ev # post"
proof -
  from assms(1) obtain us where "pre = xs @ us \<and> us @ ev # post = ys \<or> pre @ us = xs \<and> ev # post = us @ ys"
    by (auto simp: append_eq_append_conv2)
  then show ?thesis
  proof
    assume "pre = xs @ us \<and> us @ ev # post = ys"
    then show ?thesis by auto
  next
    assume a: "pre @ us = xs \<and> ev # post = us @ ys"
    show ?thesis
    proof (cases us)
      case Nil
      with a show ?thesis by auto
    next
      case (Cons u us')
      with a have "ev \<in> set xs" by auto
      with assms(2) show ?thesis by simp
    qed
  qed
qed

lemma split_before_suffix:
  assumes "pre @ ev # post = xs @ ys" and "ev \<notin> set ys"
  shows "\<exists>m. xs = pre @ ev # m \<and> post = m @ ys"
proof -
  from assms(1) obtain us where "pre = xs @ us \<and> us @ ev # post = ys \<or> pre @ us = xs \<and> ev # post = us @ ys"
    by (auto simp: append_eq_append_conv2)
  then show ?thesis
  proof
    assume "pre = xs @ us \<and> us @ ev # post = ys"
    with assms(2) show ?thesis by auto
  next
    assume a: "pre @ us = xs \<and> ev # post = us @ ys"
    show ?thesis
    proof (cases us)
      case Nil
      with a assms(2) show ?thesis by auto
    next
      case (Cons u us')
      with a show ?thesis by auto
    qed
  qed
qed

lemma start_processes_distinct:
  "start_processes env P sh out to_run running = (Inr (to_run1, running1), tr) \<Longrightarrow>
   distinct (map tid (to_run @ running)) \<Longrightarrow> distinct (map tid (to_run1 @ running1))"
proof (induction env P sh out to_run running arbitrary: tr rule: start_processes.induct)
  case (1 env P sh out to_run running)
  show ?case
  proof (cases "int (length running) < P \<and> to_run \<noteq> []")
    case False
    with "1.prems" show ?thesis by (simp add: start_processes_stop)
  next
    case True
    then have c: "int (length running) < P \<and> 0 < length to_run" by simp
    let ?t = "last to_run"
    let ?t' = "?t\<lparr>popen := Some \<lparr>timeouts = 0, returncode = None\<rparr>\<rparr>"
    from True have tr: "to_run = butlast to_run @ [?t]" by simp
    have "distinct (map tid (butlast to_run @ [?t] @ running))"
      using "1.prems"(2) tr by (metis append.assoc)
    then have d: "distinct (map tid (butlast to_run @ running @ [?t']))" by auto
    show ?thesis
    proof (cases "env (tid ?t) (retries ?t)")
      case SpawnFails
      with True "1.prems" show ?thesis by (simp add: start_processes_step)
    next
      case (Exits d' rc ob)
      with True "1.prems"(1) obtain tr' where
        "start_processes env P sh out (butlast to_run) (running @ [?t']) = (Inr (to_run1, running1), tr')"
        by (auto simp add: start_processes_step split: prod.splits)
      from "1.IH"(1)[OF c refl refl Exits this d] show ?thesis .
    next
      case Hangs
      with True "1.prems"(1) obtain tr' where
        "start_processes env P sh out (butlast to_run) (running @ [?t']) = (Inr (to_run1, running1), tr')"
        by (auto simp add: start_processes_step split: prod.splits)
      from "1.IH"(2)[OF c refl refl Hangs this d] show ?thesis .
    qed
  qed
qed

lemma poll_running_tids:
  "poll_running env out running = (res, tr) \<Longrightarrow> \<exists>rest. map tid running = map polled_tid tr @ rest"
proof (induction running arbitrary: res tr)
  case Nil
  then show ?case by simp
next
  case (Cons t rest)
  show ?case
  proof (cases "popen t")
    case None
    with Cons.prems show ?thesis by simp
  next
    case (Some p0)
    obtain r' tr' where rest: "poll_running env out rest = (r', tr')" by (cases "poll_running env out rest")
    from Cons.IH[OF rest] obtain rest' where "map tid rest = map polled_tid tr' @ rest'" by blast
    moreover from Cons.prems Some rest obtain c where "tr = Communicate (tid t) (retries t) c # tr'"
      by (auto simp: Let_def split: option.splits proc_behaviour.splits if_splits sum.splits prod.splits)
    ultimately show ?thesis by simp
  qed
qed

lemma poll_running_distinct:
  "poll_running env out running = (Inr (still, completed), tr) \<Longrightarrow>
     set (map tid (still @ completed)) \<subseteq> set (map tid running)
     \<and> (distinct (map tid running) \<longrightarrow> distinct (map tid (still @ completed)))"
proof (induction running arbitrary: still completed tr)
  case Nil
  then show ?case by simp
next
  case (Cons t rest)
  from Cons.prems obtain p0 where po: "popen t = Some p0" by (auto split: option.splits)
  obtain r' tr' where rest: "poll_running env out rest = (r', tr')" by (cases "poll_running env out rest")
  with Cons.prems po obtain still' completed' where r': "r' = Inr (still', completed')"
    by (cases r') (auto simp: Let_def split: option.splits proc_behaviour.splits if_splits)
  define a b r where "a = map tid still'" and "b = map tid completed'" and "r = map tid rest"
  from Cons.IH[OF rest[unfolded r']]
  have ih: "set (a @ b) \<subseteq> set r" "distinct r \<longrightarrow> distinct (a @ b)"
    by (simp_all add: a_def b_def r_def)
  from Cons.prems po rest r'
  have "(\<exists>t'. tid t' = tid t \<and> still = t' # still' \<and> completed = completed')
        \<or> (\<exists>t'. tid t' = tid t \<and> still = still' \<and> completed = t' # completed')"
    by (auto simp: Let_def split: option.splits proc_behaviour.splits if_splits)
  then have "map tid (still @ completed) = tid t # a @ b
             \<or> (map tid still = a \<and> map tid completed = tid t # b)"
    by (auto simp: a_def b_def)
  then have "set (map tid (still @ completed)) \<subseteq> set (tid t # r)
     \<and> (distinct (tid t # r) \<longrightarrow> distinct (map tid (still @ completed)))"
  proof
    assume "map tid (still @ completed) = tid t # a @ b"
    with ih show ?thesis by auto
  next
    assume "map tid still = a \<and> map tid completed = tid t # b"
    then have "map tid (still @ completed) = a @ tid t # b" by simp
    with ih show ?thesis by auto
  qed
  then show ?case by (simp add: r_def)
qed

lemma check_completed_distinct:
  "check_completed R out completed to_run1 = (Inr to_run2, tr) \<Longrightarrow>
     set (map tid to_run2) \<subseteq> set (map tid (to_run1 @ completed))
     \<and> (distinct (map tid (to_run1 @ completed)) \<longrightarrow> distinct (map tid to_run2))"
proof (induction completed arbitrary: to_run1 tr)
  case Nil
  then show ?case by simp
next
  case (Cons t rest)
  from Cons.prems obtain p0 where po: "popen t = Some p0" by (auto split: option.splits)
  let ?t' = "t\<lparr>retries := retries t + 1, popen := None\<rparr>"
  from Cons.prems po
  have "(\<exists>tr'. check_completed R out rest to_run1 = (Inr to_run2, tr'))
        \<or> (\<exists>tr'. check_completed R out rest (to_run1 @ [?t']) = (Inr to_run2, tr'))"
    by (auto split: if_splits sum.splits prod.splits)
  then show ?case
  proof
    assume "\<exists>tr'. check_completed R out rest to_run1 = (Inr to_run2, tr')"
    then obtain tr' where "check_completed R out rest to_run1 = (Inr to_run2, tr')" by blast
    from Cons.IH[OF this] show ?thesis by auto
  next
    assume "\<exists>tr'. check_completed R out rest (to_run1 @ [?t']) = (Inr to_run2, tr')"
    then obtain tr' where "check_completed R out rest (to_run1 @ [?t']) = (Inr to_run2, tr')" by blast
    from Cons.IH[OF this] show ?thesis by auto
  qed
qed

lemma round_distinct:
  assumes "distinct (map tid (to_run1 @ running1))"
    and "poll_running env out running1 = (Inr (still, completed), tr2)"
    and "check_completed R out completed to_run1 = (Inr to_run2, tr3)"
  shows "distinct (map tid (to_run2 @ still))"
proof -
  define t1 r1 st co t2 where "t1 = map tid to_run1" and "r1 = map tid running1"
    and "st = map tid still" and "co = map tid completed" and "t2 = map tid to_run2"
  from assms(1) have d: "distinct (t1 @ r1)" by (simp add: t1_def r1_def)
  from poll_running_distinct[OF assms(2)]
  have p: "set (st @ co) \<subseteq> set r1" "distinct r1 \<longrightarrow> distinct (st @ co)"
    by (simp_all add: st_def co_def r1_def)
  from check_completed_distinct[OF assms(3)]
  have c: "set t2 \<subseteq> set (t1 @ co)" "distinct (t1 @ co) \<longrightarrow> distinct t2"
    by (simp_all add: t1_def co_def t2_def)
  from d p have "distinct (t1 @ co)" by auto
  with c have c2: "distinct t2" by simp
  from d p c(1) c2 have "distinct (t2 @ st)" by (auto simp: subset_iff disjoint_iff)
  then show ?thesis by (simp add: t2_def st_def)
qed

lemma polls_after_distinct:
  assumes "map tid running1 = map polled_tid tr2 @ rest" and "distinct (map tid running1)"
    and "tr2 = m @ Communicate i a True # m2"
  shows "distinct (i # map polled_tid m2)"
proof -
  from assms(1,3) have "map tid running1 = map polled_tid m @ (i # map polled_tid m2) @ rest" by simp
  with assms(2) have "distinct (map polled_tid m @ (i # map polled_tid m2) @ rest)" by simp
  then show ?thesis by simp
qed

lemma run_loop_fatal_round:
  assumes "run_loop n env P sh out R to_run running = (res, tr)"
    and "tr = pre @ Communicate i a True # post"
    and "env i a = Exits d rc ob" and "rc \<noteq> 0" and "int a = R"
    and "distinct (map tid (to_run @ running))"
  shows "(\<exists>e. res = Raised e \<and> (e = RuntimeError \<or> e = AttributeError))
         \<and> (\<exists>polls logs. post = polls @ logs
               \<and> (\<forall>ev \<in> set polls. \<exists>j b c. ev = Communicate j b c)
               \<and> distinct (i # map polled_tid polls)
               \<and> (\<forall>ev \<in> set logs. \<exists>m. ev = LoggingInfo m))"
  using assms(1,2,6)
proof (induction n arbitrary: to_run running res tr pre)
  case 0
  then show ?case
    by (cases "to_run = [] \<and> running = []") (auto simp: run_loop_empty run_loop_0)
next
  case (Suc n)
  let ?ev = "Communicate i a True"
  show ?case
  proof (cases "to_run = [] \<and> running = []")
    case True
    with Suc.prems show ?thesis by (simp add: run_loop_empty)
  next
    case False
    then have ne0: "to_run \<noteq> [] \<or> running \<noteq> []" by simp
    obtain s1 tr1 where s: "start_processes env P sh out to_run running = (s1, tr1)"
      by (cases "start_processes env P sh out to_run running")
    have n1: "?ev \<notin> set tr1" using start_processes_events[OF s] by auto
    show ?thesis
    proof (cases s1)
      case (Inl e)
      with s Suc.prems(1) ne0 have "tr = tr1" by (simp add: run_loop_Suc)
      with Suc.prems(2) n1 show ?thesis by auto
    next
      case (Inr pr)
      obtain to_run1 running1 where pr: "pr = (to_run1, running1)" by (cases pr)
      from start_processes_distinct[OF s[unfolded Inr pr] Suc.prems(3)]
      have d1: "distinct (map tid (to_run1 @ running1))" .
      then have dr: "distinct (map tid running1)" by simp
      obtain p1 tr2 where p: "poll_running env out running1 = (p1, tr2)"
        by (cases "poll_running env out running1")
      have polls: "\<forall>ev \<in> set tr2. \<exists>j b c. ev = Communicate j b c"
        using poll_running_events[OF p] by blast
      from poll_running_tids[OF p] obtain rest where tids: "map tid running1 = map polled_tid tr2 @ rest"
        by blast
      show ?thesis
      proof (cases p1)
        case (Inl e)
        with s Inr pr p Suc.prems(1) ne0 have r: "res = Raised e" and t: "tr = tr1 @ tr2"
          by (simp_all add: run_loop_Suc)
        from Inl p have e: "e = AttributeError" using poll_running_error by blast
        from Suc.prems(2) t have "pre @ ?ev # post = tr1 @ tr2" by simp
        from split_after_prefix[OF this n1] obtain m where m: "tr2 = m @ ?ev # post" by blast
        with polls have "\<forall>ev \<in> set post. \<exists>j b c. ev = Communicate j b c" by auto
        moreover from polls_after_distinct[OF tids dr m] have "distinct (i # map polled_tid post)" .
        ultimately have "post = post @ [] \<and> (\<forall>ev \<in> set post. \<exists>j b c. ev = Communicate j b c)
                     \<and> distinct (i # map polled_tid post)
                     \<and> (\<forall>ev \<in> set ([]::event list). \<exists>m. ev = LoggingInfo m)" by simp
        with r e show ?thesis by blast
      next
        case (Inr sc)
        obtain still completed where sc: "sc = (still, completed)" by (cases sc)
        obtain c1 tr3 where c: "check_completed R out completed to_run1 = (c1, tr3)"
          by (cases "check_completed R out completed to_run1")
        have logs: "\<forall>ev \<in> set tr3. \<exists>m. ev = LoggingInfo m"
          using check_completed_events[OF c] by blast
        then have n3: "?ev \<notin> set tr3" by auto
        show ?thesis
        proof (cases c1)
          case (Inl e)
          with s \<open>s1 = Inr pr\<close> pr p \<open>p1 = Inr sc\<close> sc c Suc.prems(1) ne0
          have r: "res = Raised e" and t: "tr = tr1 @ tr2 @ tr3"
            by (simp_all add: run_loop_Suc)
          from Inl c have e: "e = RuntimeError \<or> e = AttributeError" using check_completed_error by blast
          from Suc.prems(2) t have "pre @ ?ev # post = tr1 @ (tr2 @ tr3)" by simp
          from split_after_prefix[OF this n1] obtain m where m: "tr2 @ tr3 = m @ ?ev # post" by blast
          from split_before_suffix[OF m[symmetric] n3] obtain m2 where
            m2: "tr2 = m @ ?ev # m2" "post = m2 @ tr3" by blast
          from polls_after_distinct[OF tids dr m2(1)] have "distinct (i # map polled_tid m2)" .
          with m2 polls logs have "post = m2 @ tr3 \<and> (\<forall>ev \<in> set m2. \<exists>j b c. ev = Communicate j b c)
                     \<and> distinct (i # map polled_tid m2)
                     \<and> (\<forall>ev \<in> set tr3. \<exists>m. ev = LoggingInfo m)" by auto
          with r e show ?thesis by blast
        next
          case (Inr to_run2)
          obtain r4 tr4 where l: "run_loop n env P sh out R to_run2 still = (r4, tr4)"
            by (cases "run_loop n env P sh out R to_run2 still")
          with s \<open>s1 = Inr pr\<close> pr p \<open>p1 = Inr sc\<close> sc c Inr Suc.prems(1) ne0
          have r: "res = r4" and t: "tr = tr1 @ tr2 @ tr3 @ tr4"
            by (simp_all add: run_loop_Suc)
          have n2: "?ev \<notin> set tr2"
          proof
            assume "?ev \<in> set tr2"
            from poll_running_completed[OF p[unfolded \<open>p1 = Inr sc\<close> sc] this assms(3)]
            obtain t0 p0 where "t0 \<in> set completed" "popen t0 = Some p0" "returncode p0 = Some rc"
              "retries t0 = a" by blast
            with check_completed_fatal[of t0 completed p0 R out to_run1] assms(4,5) c Inr
            show False by auto
          qed
          from round_distinct[OF d1 p[unfolded \<open>p1 = Inr sc\<close> sc] c[unfolded Inr]]
          have d2: "distinct (map tid (to_run2 @ still))" .
          from Suc.prems(2) t have eq: "pre @ ?ev # post = (tr1 @ tr2 @ tr3) @ tr4" by simp
          have nin: "?ev \<notin> set (tr1 @ tr2 @ tr3)" using n1 n2 n3 by simp
          from split_after_prefix[OF eq nin] obtain m where m: "tr4 = m @ ?ev # post" by blast
          from Suc.IH[OF l m d2] r show ?thesis by simp
        qed
      qed
    qed
  qed
qed

lemma initial_trackers_distinct:
  "distinct (map tid (map (\<lambda>(i, c). CMDTracker i c) (enumerate 0 cmds)))"
proof -
  have "tid \<circ> (\<lambda>(i, c). CMDTracker i c) = fst"
    by (auto simp: CMDTracker_def fun_eq_iff)
  then have "map tid (map (\<lambda>(i, c). CMDTracker i c) (enumerate 0 cmds)) = map fst (enumerate 0 cmds)"
    by simp
  then show ?thesis by simp
qed

text \<open>
  Claim C5. Suppose that during a run a \<^verbatim>\<open>communicate\<close> sees a process complete whose
  exit status is non-zero and whose tracker has its retry counter at the budget. Then the run
  raises, and all that happens after that completion is: trackers other than the failed one
  are polled, each at most once (the polling round that was under way is finished; these polls
  precede the check that finds the failure), and then lines are logged. No process is started
  any more and no further polling round takes place; what is still running or still queued is
  abandoned.
\<close>

theorem fatal_failure_stops_the_batch:
  assumes "run_processes fuel env sp p sh out r = (res, sp', tr)"
    and "tr = pre @ Communicate i a True # post"
    and "env i a = Exits d rc ob" and "rc \<noteq> 0" and "int a = int_of r"
  shows "(\<exists>e. res = Raised e \<and> (e = RuntimeError \<or> e = AttributeError))
         \<and> (\<exists>polls logs. post = polls @ logs
               \<and> (\<forall>ev \<in> set polls. \<exists>j b c. ev = Communicate j b c)
               \<and> distinct (i # map polled_tid polls)
               \<and> (\<forall>ev \<in> set logs. \<exists>m. ev = LoggingInfo m))"
proof (cases "args_ok p sh out r")
  case False
  then obtain e where "run_processes fuel env sp p sh out r = (Raised e, sp, [])"
    using run_processes_args_bad by blast
  with assms(1,2) show ?thesis by simp
next
  case True
  obtain res' tr' where l: "run_loop fuel env (int_of p) (truthy sh) (truthy out) (int_of r)
             (map (\<lambda>(i, c). CMDTracker i c) (enumerate 0 (cmd_list sp))) [] = (res', tr')"
    by (cases "run_loop fuel env (int_of p) (truthy sh) (truthy out) (int_of r)
             (map (\<lambda>(i, c). CMDTracker i c) (enumerate 0 (cmd_list sp))) []")
  with True assms(1) have "res' = res" "tr' = tr" by (simp_all add: run_processes_args_ok)
  with l have l': "run_loop fuel env (int_of p) (truthy sh) (truthy out) (int_of r)
             (map (\<lambda>(i, c). CMDTracker i c) (enumerate 0 (cmd_list sp))) [] = (res, tr)" by simp
  have d: "distinct (map tid (map (\<lambda>(i, c). CMDTracker i c) (enumerate 0 (cmd_list sp)) @ []))"
    using initial_trackers_distinct by simp
  from run_loop_fatal_round[OF l' assms(2,3,4,5) d] show ?thesis .
qed

theorem fatal_failure_stops_the_batch_witness:
  "run_processes 3 last_fails_at_once four_commands (PInt 2) (PBool False) (PBool True) (PInt 0)
     = (Raised RuntimeError, \<lparr>cmd_list = []\<rparr>,
        [Popen 3 0 (PList [PStr ''d'', PStr ''-x'']) False True, Popen 2 0 (PList [PStr ''c'']) False True]
        @ Communicate 3 0 True
        # [Communicate 2 0 False,
           LoggingInfo ('' - subprocess exited with errors - '' @ [CHR 0x0A] @ ''no such file'')])
   \<and> last_fails_at_once 3 0 = Exits 0 3 (Some '' no such file '')
   \<and> (\<exists>polls logs.
         [Communicate 2 0 False,
          LoggingInfo ('' - subprocess exited with errors - '' @ [CHR 0x0A] @ ''no such file'')] = polls @ logs
         \<and> (\<forall>ev \<in> set polls. \<exists>j b c. ev = Communicate j b c)
         \<and> distinct (3 # map polled_tid polls)
         \<and> (\<forall>ev \<in> set logs. \<exists>m. ev = LoggingInfo m))"
proof -
  have r: "run_processes 3 last_fails_at_once four_commands (PInt 2) (PBool False) (PBool True) (PInt 0)
     = (Raised RuntimeError, \<lparr>cmd_list = []\<rparr>,
        [Popen 3 0 (PList [PStr ''d'', PStr ''-x'']) False True, Popen 2 0 (PList [PStr ''c'']) False True]
        @ Communicate 3 0 True
        # [Communicate 2 0 False,
           LoggingInfo ('' - subprocess exited with errors - '' @ [CHR 0x0A] @ ''no such file'')])"
    by code_simp
  have e: "last_fails_at_once 3 0 = Exits 0 3 (Some '' no such file '')"
    by (simp add: last_fails_at_once_def)
  have n: "(3::int) \<noteq> 0" by simp
  have a: "int 0 = int_of (PInt 0)" by simp
  show ?thesis
    using r e fatal_failure_stops_the_batch[OF r refl e n a] by simp
qed

end
